theory Spec2Isabelle
  imports Complex_Main "HOL-Library.Multiset" "HOL-Library.Word"
begin

section \<open>Data model (meshscanner/models.py, meshscanner/config.py)\<close>

text \<open>
  A Python \<open>str\<close> is a sequence of Unicode code points. Host names, service labels and
  port-list strings are ASCII and are modelled as \<open>string\<close>; a decoded banner may hold any
  code point and is modelled as a list of code points.
\<close>

type_synonym byte = "8 word"
type_synonym unicode = "nat list"

text \<open>A naive \<open>datetime\<close> (no tzinfo), as \<open>datetime.utcnow()\<close> returns it.\<close>

record datetime =
  year :: nat
  month :: nat
  day :: nat
  hour :: nat
  minute :: nat
  second :: nat
  microsecond :: nat

record ScanResult =
  ip :: string
  port :: int
  is_open :: bool
  service :: "string option"
  banner :: "unicode option"
  scanned_at :: "datetime option"

record ScannerConfig =
  timeout :: real
  max_hosts :: int
  concurrency :: int
  banner_max_bytes :: int

section \<open>Decoding bytes (\<open>bytes.decode\<close>)\<close>

datatype errors = Strict | Ignore

datatype UnicodeDecodeError = UnicodeDecodeError

text \<open>
  One step of the UTF-8 decoder on a non-empty input whose first byte is \<open>b\<close> and whose
  remaining bytes are \<open>bs\<close>: either a code point and the number of further bytes it
  used, or a malformed range and the number of further bytes it covers (an invalid start
  byte covers itself only, an invalid continuation byte ends the range before it, and a
  sequence cut off by the end of the input covers the rest).
\<close>

datatype utf8_outcome = Decoded nat nat | Malformed nat

definition is_cont :: "nat \<Rightarrow> bool" where
  "is_cont c = (128 \<le> c \<and> c < 192)"

fun utf8_step :: "nat \<Rightarrow> nat list \<Rightarrow> utf8_outcome" where
  "utf8_step b bs =
    (if b < 128 then Decoded b 0
     else if b < 224 then
       (if b < 194 then Malformed 0
        else case bs of
          [] \<Rightarrow> Malformed 0
        | c2 # _ \<Rightarrow>
            if \<not> is_cont c2 then Malformed 0
            else Decoded (b * 64 + c2 - (192 * 64 + 128)) 1)
     else if b < 240 then
       (case bs of
          [] \<Rightarrow> Malformed 0
        | c2 # r2 \<Rightarrow>
            if \<not> is_cont c2 \<or> (if c2 < 160 then b = 224 else b = 237) then Malformed 0
            else (case r2 of
              [] \<Rightarrow> Malformed 1
            | c3 # _ \<Rightarrow>
                if \<not> is_cont c3 then Malformed 1
                else Decoded (b * 4096 + c2 * 64 + c3 - (224 * 4096 + 128 * 64 + 128)) 2))
     else if b < 245 then
       (case bs of
          [] \<Rightarrow> Malformed 0
        | c2 # r2 \<Rightarrow>
            if \<not> is_cont c2 \<or> (if c2 < 144 then b = 240 else b = 244) then Malformed 0
            else (case r2 of
              [] \<Rightarrow> Malformed 1
            | c3 # r3 \<Rightarrow>
                if \<not> is_cont c3 then Malformed 1
                else (case r3 of
                  [] \<Rightarrow> Malformed 2
                | c4 # _ \<Rightarrow>
                    if \<not> is_cont c4 then Malformed 2
                    else Decoded (b * 262144 + c2 * 4096 + c3 * 64 + c4
                                   - (240 * 262144 + 128 * 4096 + 128 * 64 + 128)) 3)))
     else Malformed 0)"

declare utf8_step.simps [simp del]

function utf_8_decode :: "errors \<Rightarrow> nat list \<Rightarrow> UnicodeDecodeError + unicode" where
  "utf_8_decode e [] = Inr []"
| "utf_8_decode e (b # bs) =
    (case utf8_step b bs of
       Decoded c n \<Rightarrow>
         (case utf_8_decode e (drop n bs) of Inl x \<Rightarrow> Inl x | Inr t \<Rightarrow> Inr (c # t))
     | Malformed n \<Rightarrow>
         (case e of
            Strict \<Rightarrow> Inl UnicodeDecodeError
          | Ignore \<Rightarrow> utf_8_decode e (drop n bs)))"
  by pat_completeness auto
termination
  by (relation "measure (\<lambda>(e, bs). length bs)") auto

text \<open>Latin-1 maps every byte to the code point of the same number and never fails.\<close>

definition latin_1_decode :: "errors \<Rightarrow> nat list \<Rightarrow> UnicodeDecodeError + unicode" where
  "latin_1_decode e bs = Inr bs"

datatype codec = UTF8 | Latin1

definition bytes_decode :: "byte list \<Rightarrow> codec \<Rightarrow> errors \<Rightarrow> UnicodeDecodeError + unicode" where
  "bytes_decode data enc e =
    (case enc of
       UTF8 \<Rightarrow> utf_8_decode e (map unat data)
     | Latin1 \<Rightarrow> latin_1_decode e (map unat data))"

section \<open>Port prober and banner sniffer (port_scanner.py, banner_grabber.py)\<close>

text \<open>
  What the network does is an input of the model. \<open>sniff_io\<close> is the outcome of the I/O
  operations of one banner grab: whether \<open>open_connection\<close> completed within the timeout,
  whether writing and draining the request succeeded, and what the read found
  (\<open>None\<close>: the read raised or timed out; \<open>Some bs\<close>: the bytes the peer had delivered).
\<close>

record sniff_io =
  conn_ok :: bool
  send_ok :: bool
  reply :: "byte list option"

text \<open>\<open>StreamReader.read(n)\<close>: nothing for \<open>n = 0\<close>, everything for \<open>n < 0\<close>, at most
  \<open>n\<close> bytes otherwise.\<close>

definition reader_read :: "int \<Rightarrow> byte list \<Rightarrow> byte list" where
  "reader_read n avail = (if n = 0 then [] else if n < 0 then avail else take (nat n) avail)"

text \<open>\<open>check_port\<close>: every exception of the connection attempt collapses to \<open>False\<close>.\<close>

definition check_port :: "bool \<Rightarrow> bool" where
  "check_port conn = (if conn then True else False)"

text \<open>The body shared by both grabbers from the read on (banner\_grabber.py, lines 34-43
  and 71-80).\<close>

definition read_banner :: "int \<Rightarrow> byte list option \<Rightarrow> unicode option" where
  "read_banner max_bytes rd =
    (case rd of
       None \<Rightarrow> None
     | Some avail \<Rightarrow>
         (let data = reader_read max_bytes avail in
          if data = [] then None
          else (case bytes_decode data UTF8 Ignore of
                  Inr t \<Rightarrow> Some t
                | Inl UnicodeDecodeError \<Rightarrow>
                    (case bytes_decode data Latin1 Ignore of
                       Inr t \<Rightarrow> Some t
                     | Inl _ \<Rightarrow> None))))"

definition grab_http_banner :: "string \<Rightarrow> int \<Rightarrow> real \<Rightarrow> int \<Rightarrow> sniff_io \<Rightarrow> unicode option" where
  "grab_http_banner host p tmo max_bytes io =
    (if \<not> conn_ok io then None
     else if \<not> send_ok io then None
     else read_banner max_bytes (reply io))"

definition grab_raw_banner :: "string \<Rightarrow> int \<Rightarrow> real \<Rightarrow> int \<Rightarrow> sniff_io \<Rightarrow> unicode option" where
  "grab_raw_banner host p tmo max_bytes io =
    (if \<not> conn_ok io then None
     else read_banner max_bytes (reply io))"

section \<open>Scan orchestrator: one task (scanner.py, \<open>_scan_host_port\<close>)\<close>

text \<open>What one task meets: the answer to the probe's connection attempt, the I/O of the
  banner grab that follows an open port, and the clock read at the end.\<close>

record probe_env =
  probe_ok :: bool
  sniff :: sniff_io
  utcnow :: datetime

definition scan_host_port :: "string \<Rightarrow> int \<Rightarrow> ScannerConfig \<Rightarrow> probe_env \<Rightarrow> ScanResult" where
  "scan_host_port host p cfg env =
    (let opened = check_port (probe_ok env);
         sb = (if opened then
                 (if p \<in> {80, 8080, 8000, 443} then
                    (Some ''http'',
                     grab_http_banner host p (timeout cfg) (banner_max_bytes cfg) (sniff env))
                  else
                    (Some ''unknown'',
                     grab_raw_banner host p (timeout cfg) (banner_max_bytes cfg) (sniff env)))
               else (None, None))
     in \<lparr>ip = host, port = p, is_open = opened, service = fst sb, banner = snd sb,
         scanned_at = Some (utcnow env)\<rparr>)"

section \<open>Result store (models.py \<open>to_record\<close>, storage.py)\<close>

text \<open>\<open>str(n)\<close> and the \<open>%0wd\<close> format of a natural number.\<close>

definition digit_char :: "nat \<Rightarrow> char" where
  "digit_char d = char_of (48 + d)"

fun str_nat :: "nat \<Rightarrow> string" where
  "str_nat n = (if n < 10 then [digit_char n] else str_nat (n div 10) @ [digit_char (n mod 10)])"

declare str_nat.simps [simp del]

definition zero_pad :: "nat \<Rightarrow> nat \<Rightarrow> string" where
  "zero_pad w n = (let s = str_nat n in replicate (w - length s) CHR ''0'' @ s)"

text \<open>\<open>datetime.isoformat()\<close> of a naive datetime: \<open>YYYY-MM-DDTHH:MM:SS\<close>, followed by
  \<open>.ffffff\<close> when the microsecond is not zero.\<close>

definition isoformat :: "datetime \<Rightarrow> string" where
  "isoformat t =
     zero_pad 4 (year t) @ ''-'' @ zero_pad 2 (month t) @ ''-'' @ zero_pad 2 (day t) @ ''T'' @
     zero_pad 2 (hour t) @ '':'' @ zero_pad 2 (minute t) @ '':'' @ zero_pad 2 (second t) @
     (if microsecond t \<noteq> 0 then ''.'' @ zero_pad 6 (microsecond t) else [])"

text \<open>
  The dictionary \<open>to_record\<close> returns: the fields of the result, with \<open>scanned_at\<close> turned
  into text. \<open>None\<close> stands for Python's \<open>None\<close>, which SQLite stores as NULL.
\<close>

record scan_record =
  rec_ip :: string
  rec_port :: int
  rec_is_open :: bool
  rec_service :: "string option"
  rec_banner :: "unicode option"
  rec_scanned_at :: "string option"

definition to_record :: "ScanResult \<Rightarrow> datetime \<Rightarrow> scan_record" where
  "to_record r now =
    (let d = \<lparr>rec_ip = ip r, rec_port = port r, rec_is_open = is_open r,
              rec_service = service r, rec_banner = banner r, rec_scanned_at = None\<rparr>
     in case scanned_at r of
          None \<Rightarrow> d\<lparr>rec_scanned_at := Some (isoformat now)\<rparr>
        | Some t \<Rightarrow> d\<lparr>rec_scanned_at := Some (isoformat t)\<rparr>)"

text \<open>One row of the table \<open>scans\<close>; \<open>None\<close> in a column is NULL.\<close>

record scan_row =
  row_id :: nat
  row_ip :: string
  row_port :: int
  row_is_open :: int
  row_service :: "string option"
  row_banner :: "unicode option"
  row_scanned_at :: "string option"

text \<open>
  The database file: the committed rows of \<open>scans\<close> and the AUTOINCREMENT counter. A
  connection holds the file and, while a transaction is open, the rows and the counter as the
  transaction sees them.
\<close>

record database =
  scans :: "scan_row list"
  seq :: nat

record connection =
  stored :: database
  txn :: "database option"

datatype sqlite_error = OperationalError | IntegrityError

definition sqlite_connect :: "database \<Rightarrow> connection" where
  "sqlite_connect db = \<lparr>stored = db, txn = None\<rparr>"

text \<open>\<open>BEGIN\<close> fails inside a transaction or when the engine reports an I/O fault.\<close>

definition execute_begin :: "bool \<Rightarrow> connection \<Rightarrow> sqlite_error + connection" where
  "execute_begin fault c =
    (if fault \<or> txn c \<noteq> None then Inl OperationalError
     else Inr (c\<lparr>txn := Some (stored c)\<rparr>))"

text \<open>
  \<open>INSERT INTO scans (ip, port, is_open, service, banner, scanned_at)\<close>: a failing
  statement adds nothing; \<open>scanned_at\<close> is declared NOT NULL. Outside a transaction the
  \<open>sqlite3\<close> module opens one before the statement.
\<close>

definition execute_insert ::
  "bool \<Rightarrow> string \<Rightarrow> int \<Rightarrow> int \<Rightarrow> string option \<Rightarrow> unicode option \<Rightarrow> string option \<Rightarrow>
   connection \<Rightarrow> sqlite_error + connection" where
  "execute_insert fault a p opn sv b ts c =
    (if fault then Inl OperationalError
     else if ts = None then Inl IntegrityError
     else
       (let t = (case txn c of None \<Rightarrow> stored c | Some t \<Rightarrow> t);
            row = \<lparr>row_id = Suc (seq t), row_ip = a, row_port = p, row_is_open = opn,
                   row_service = sv, row_banner = b, row_scanned_at = ts\<rparr>
        in Inr (c\<lparr>txn := Some \<lparr>scans = scans t @ [row], seq = Suc (seq t)\<rparr>\<rparr>)))"

text \<open>A failing \<open>COMMIT\<close> leaves the transaction open; a successful one makes it the file.\<close>

definition sqlite_commit :: "bool \<Rightarrow> connection \<Rightarrow> sqlite_error + connection" where
  "sqlite_commit fault c =
    (if fault then Inl OperationalError
     else case txn c of
            None \<Rightarrow> Inr c
          | Some t \<Rightarrow> Inr \<lparr>stored = t, txn = None\<rparr>)"

text \<open>Closing a connection rolls an open transaction back: the file is what remains.\<close>

definition sqlite_close :: "connection \<Rightarrow> database" where
  "sqlite_close c = stored c"

text \<open>
  What the store and the clock do during one \<open>save_results\<close>: which statements the engine
  fails (I/O error, disk full), and the time \<open>to_record\<close> reads for the \<open>k\<close>-th result.
\<close>

record store_io =
  begin_fails :: bool
  insert_fails :: "nat \<Rightarrow> bool"
  commit_fails :: bool
  clock :: "nat \<Rightarrow> datetime"

text \<open>The loop of \<open>save_results\<close> (storage.py, lines 43-58), from the \<open>k\<close>-th result on.\<close>

fun insert_loop ::
  "store_io \<Rightarrow> nat \<Rightarrow> ScanResult list \<Rightarrow> connection \<Rightarrow> sqlite_error + connection" where
  "insert_loop io k [] c = Inr c"
| "insert_loop io k (r # rs) c =
    (let rc = to_record r (clock io k) in
     case execute_insert (insert_fails io k) (rec_ip rc) (rec_port rc)
            (if rec_is_open rc then 1 else 0) (rec_service rc) (rec_banner rc)
            (rec_scanned_at rc) c of
       Inl e \<Rightarrow> Inl e
     | Inr c' \<Rightarrow> insert_loop io (Suc k) rs c')"

text \<open>\<open>save_results\<close>: the outcome of the call (an exception or normal return) and the
  database file after the \<open>finally\<close> clause has closed the connection.\<close>

definition save_results ::
  "store_io \<Rightarrow> database \<Rightarrow> ScanResult list \<Rightarrow> (sqlite_error + unit) \<times> database" where
  "save_results io path results =
    (let conn = sqlite_connect path in
     case execute_begin (begin_fails io) conn of
       Inl e \<Rightarrow> (Inl e, sqlite_close conn)
     | Inr c1 \<Rightarrow>
         (case insert_loop io 0 results c1 of
            Inl e \<Rightarrow> (Inl e, sqlite_close c1)
          | Inr c2 \<Rightarrow>
              (case sqlite_commit (commit_fails io) c2 of
                 Inl e \<Rightarrow> (Inl e, sqlite_close c2)
               | Inr c3 \<Rightarrow> (Inr (), sqlite_close c3))))"

text \<open>The row that a result becomes, given the identifier the table assigns and the time
  \<open>to_record\<close> reads.\<close>

definition row_of :: "nat \<Rightarrow> datetime \<Rightarrow> ScanResult \<Rightarrow> scan_row" where
  "row_of n now r =
    (let rc = to_record r now in
     \<lparr>row_id = n, row_ip = rec_ip rc, row_port = rec_port rc,
      row_is_open = (if rec_is_open rc then 1 else 0), row_service = rec_service rc,
      row_banner = rec_banner rc, row_scanned_at = rec_scanned_at rc\<rparr>)"

definition rows_of :: "store_io \<Rightarrow> nat \<Rightarrow> nat \<Rightarrow> ScanResult list \<Rightarrow> scan_row list" where
  "rows_of io k n rs = map (\<lambda>(j, r). row_of (Suc (n + j)) (clock io (k + j)) r) (enumerate 0 rs)"

section \<open>Port lists (cli.py, \<open>parse_ports\<close>)\<close>

datatype ValueError = ValueError

text \<open>The characters below 256 that \<open>str.isspace\<close> accepts.\<close>

definition is_space :: "char \<Rightarrow> bool" where
  "is_space c = ((of_char c :: nat) \<in> {9, 10, 11, 12, 13, 28, 29, 30, 31, 32, 133, 160})"

definition strip :: "string \<Rightarrow> string" where
  "strip s = rev (dropWhile is_space (rev (dropWhile is_space s)))"

text \<open>\<open>s.split(sep)\<close> for a one-character separator: every occurrence splits, and the empty
  string gives one empty part.\<close>

function split_on :: "char \<Rightarrow> string \<Rightarrow> string list" where
  "split_on sep s =
    (case dropWhile (\<lambda>c. c \<noteq> sep) s of
       [] \<Rightarrow> [s]
     | _ # r \<Rightarrow> takeWhile (\<lambda>c. c \<noteq> sep) s # split_on sep r)"
  by pat_completeness auto
termination
proof (relation "measure (\<lambda>(sep, s). length s)")
  show "wf (measure (\<lambda>(sep, s). length s))" by simp
next
  fix sep :: char and s :: string and x r
  assume "dropWhile (\<lambda>c. c \<noteq> sep) s = x # r"
  then have "length (x # r) \<le> length s"
    using length_dropWhile_le [of "\<lambda>c. c \<noteq> sep" s] by simp
  then show "((sep, r), (sep, s)) \<in> measure (\<lambda>(sep, s). length s)" by simp
qed

declare split_on.simps [simp del]

text \<open>\<open>s.split(sep, 1)\<close> when \<open>sep\<close> occurs in \<open>s\<close>: the text before the first occurrence
  and the text after it.\<close>

definition split_once :: "char \<Rightarrow> string \<Rightarrow> string \<times> string" where
  "split_once sep s = (takeWhile (\<lambda>c. c \<noteq> sep) s, tl (dropWhile (\<lambda>c. c \<noteq> sep) s))"

definition is_digit :: "char \<Rightarrow> bool" where
  "is_digit c = (48 \<le> (of_char c :: nat) \<and> (of_char c :: nat) \<le> 57)"

definition digit_val :: "char \<Rightarrow> nat" where
  "digit_val c = of_char c - 48"

text \<open>The digits of a decimal literal after the first: a digit, or an underscore followed
  by a digit.\<close>

fun digits_acc :: "nat \<Rightarrow> string \<Rightarrow> nat option" where
  "digits_acc acc [] = Some acc"
| "digits_acc acc (c # cs) =
    (if is_digit c then digits_acc (acc * 10 + digit_val c) cs
     else if c = CHR ''_'' then
       (case cs of
          [] \<Rightarrow> None
        | d # ds \<Rightarrow> if is_digit d then digits_acc (acc * 10 + digit_val d) ds else None)
     else None)"

definition parse_decimal :: "string \<Rightarrow> nat option" where
  "parse_decimal s =
    (case s of
       [] \<Rightarrow> None
     | c # cs \<Rightarrow> if is_digit c then digits_acc (digit_val c) cs else None)"

text \<open>
  \<open>int(s)\<close> in base 10: surrounding whitespace is dropped, one sign is allowed, and the
  digits may be grouped by single underscores. (The interpreter's configurable limit on
  the number of digits is left out.)
\<close>

definition int_of_str :: "string \<Rightarrow> ValueError + int" where
  "int_of_str s =
    (case strip s of
       [] \<Rightarrow> Inl ValueError
     | c # cs \<Rightarrow>
         if c = CHR ''-'' then
           (case parse_decimal cs of None \<Rightarrow> Inl ValueError | Some n \<Rightarrow> Inr (- int n))
         else if c = CHR ''+'' then
           (case parse_decimal cs of None \<Rightarrow> Inl ValueError | Some n \<Rightarrow> Inr (int n))
         else
           (case parse_decimal (c # cs) of None \<Rightarrow> Inl ValueError | Some n \<Rightarrow> Inr (int n)))"

text \<open>One pass of the loop body of \<open>parse_ports\<close>: the ports that one part appends.\<close>

definition parse_part :: "string \<Rightarrow> ValueError + int list" where
  "parse_part part =
    (if CHR ''-'' \<in> set part then
       (case split_once CHR ''-'' part of
          (start_str, end_str) \<Rightarrow>
            (case int_of_str start_str of
               Inl e \<Rightarrow> Inl e
             | Inr start \<Rightarrow>
                 (case int_of_str end_str of
                    Inl e \<Rightarrow> Inl e
                  | Inr end' \<Rightarrow> Inr [start..end'])))
     else
       (case int_of_str part of
          Inl e \<Rightarrow> Inl e
        | Inr v \<Rightarrow> Inr [v]))"

fun parse_loop :: "string list \<Rightarrow> int list \<Rightarrow> ValueError + int list" where
  "parse_loop [] result = Inr result"
| "parse_loop (part # parts) result =
    (case parse_part part of
       Inl e \<Rightarrow> Inl e
     | Inr ps \<Rightarrow> parse_loop parts (result @ ps))"

definition parse_ports :: "string \<Rightarrow> ValueError + int list" where
  "parse_ports ports_str =
    (let parts = map strip (filter (\<lambda>p. strip p \<noteq> []) (split_on CHR '','' ports_str))
     in case parse_loop parts [] of
          Inl e \<Rightarrow> Inl e
        | Inr result \<Rightarrow> Inr (sort (remdups result)))"

text \<open>
  A port list as the command line documents it: items that are single numbers or
  inclusive ranges, written in decimal and joined by commas; and the ports it denotes.
\<close>

datatype port_item = Single nat | Range nat nat

fun render_item :: "port_item \<Rightarrow> string" where
  "render_item (Single n) = str_nat n"
| "render_item (Range a b) = str_nat a @ ''-'' @ str_nat b"

fun join :: "string \<Rightarrow> string list \<Rightarrow> string" where
  "join sep [] = []"
| "join sep [x] = x"
| "join sep (x # y # ys) = x @ sep @ join sep (y # ys)"

definition render_ports :: "port_item list \<Rightarrow> string" where
  "render_ports items = join '','' (map render_item items)"

fun denoted :: "port_item \<Rightarrow> int set" where
  "denoted (Single n) = {int n}"
| "denoted (Range a b) = {int a..int b}"

text \<open>The ports one item stands for, in ascending order.\<close>

fun ports_of :: "port_item \<Rightarrow> int list" where
  "ports_of (Single n) = [int n]"
| "ports_of (Range a b) = [int a..int b]"

section \<open>Target expander (ip\_range.py) and the \<open>ipaddress\<close> module it calls\<close>

text \<open>
  \<open>expand_cidr\<close> delegates parsing and host enumeration to the standard module
  \<open>ipaddress\<close>. The functions below follow that module (CPython 3.11), function by
  function and under its names. All its exceptions are subclasses of \<open>ValueError\<close>;
  \<open>PlainValueError\<close> is the ones that are neither an \<open>AddressValueError\<close> nor a
  \<open>NetmaskValueError\<close>.
\<close>

datatype ip_error = AddressValueError | NetmaskValueError | PlainValueError

datatype address = IPv4Address int | IPv6Address int "string option"

datatype ip_version = V4 | V6

text \<open>A network object: the version, the network address and prefix length, and the
  address object built from the address part of the argument, which \<open>hosts\<close> returns for a
  single-address network.\<close>

record network =
  version :: ip_version
  network_address :: int
  prefixlen :: nat
  given_address :: address

definition max_prefixlen :: "ip_version \<Rightarrow> nat" where
  "max_prefixlen v = (case v of V4 \<Rightarrow> 32 | V6 \<Rightarrow> 128)"

definition ALL_ONES :: "ip_version \<Rightarrow> int" where
  "ALL_ONES v = 2 ^ max_prefixlen v - 1"

text \<open>The value of a string of decimal digits (\<open>int(s)\<close> once the digits were checked).\<close>

definition dec_value :: "string \<Rightarrow> int" where
  "dec_value s = foldl (\<lambda>a c. a * 10 + int (digit_val c)) 0 s"

definition parse_octet :: "string \<Rightarrow> ip_error + int" where
  "parse_octet octet_str =
    (if octet_str = [] then Inl PlainValueError
     else if \<not> list_all is_digit octet_str then Inl PlainValueError
     else if length octet_str > 3 then Inl PlainValueError
     else if octet_str \<noteq> ''0'' \<and> hd octet_str = CHR ''0'' then Inl PlainValueError
     else if dec_value octet_str > 255 then Inl PlainValueError
     else Inr (dec_value octet_str))"

text \<open>\<open>map\<close> of a function that may raise: the first error stops it.\<close>

fun map_raise :: "('a \<Rightarrow> 'e + 'b) \<Rightarrow> 'a list \<Rightarrow> 'e + 'b list" where
  "map_raise f [] = Inr []"
| "map_raise f (x # xs) =
    (case f x of
       Inl e \<Rightarrow> Inl e
     | Inr y \<Rightarrow> (case map_raise f xs of Inl e \<Rightarrow> Inl e | Inr ys \<Rightarrow> Inr (y # ys)))"

text \<open>\<open>int.from_bytes(bs, 'big')\<close> and \<open>n.to_bytes(4, 'big')\<close>.\<close>

definition from_bytes :: "int list \<Rightarrow> int" where
  "from_bytes bs = foldl (\<lambda>a b. a * 256 + b) 0 bs"

definition to_bytes4 :: "int \<Rightarrow> nat list" where
  "to_bytes4 n =
    map nat [n div 16777216 mod 256, n div 65536 mod 256, n div 256 mod 256, n mod 256]"

definition ip4_int_from_string :: "string \<Rightarrow> ip_error + int" where
  "ip4_int_from_string ip_str =
    (if ip_str = [] then Inl AddressValueError
     else
       (let octets = split_on CHR ''.'' ip_str in
        if length octets \<noteq> 4 then Inl AddressValueError
        else (case map_raise parse_octet octets of
                Inl e \<Rightarrow> Inl AddressValueError
              | Inr bs \<Rightarrow> Inr (from_bytes bs))))"

text \<open>\<open>IPv4Address(addr_str)\<close>: the integer of the address.\<close>

definition IPv4Address_of_str :: "string \<Rightarrow> ip_error + int" where
  "IPv4Address_of_str addr_str =
    (if CHR ''/'' \<in> set addr_str then Inl AddressValueError
     else ip4_int_from_string addr_str)"

definition string_from_ip4_int :: "int \<Rightarrow> string" where
  "string_from_ip4_int ip_int = join ''.'' (map str_nat (to_bytes4 ip_int))"

subsection \<open>IPv6 addresses\<close>

definition is_hex_digit :: "char \<Rightarrow> bool" where
  "is_hex_digit c =
    (is_digit c \<or> (65 \<le> (of_char c :: nat) \<and> (of_char c :: nat) \<le> 70)
               \<or> (97 \<le> (of_char c :: nat) \<and> (of_char c :: nat) \<le> 102))"

definition hex_val :: "char \<Rightarrow> nat" where
  "hex_val c =
    (if is_digit c then of_char c - 48
     else if (of_char c :: nat) \<le> 70 then of_char c - 55
     else of_char c - 87)"

definition hex_value :: "string \<Rightarrow> int" where
  "hex_value s = foldl (\<lambda>a c. a * 16 + int (hex_val c)) 0 s"

definition parse_hextet :: "string \<Rightarrow> ip_error + int" where
  "parse_hextet hextet_str =
    (if \<not> list_all is_hex_digit hextet_str then Inl PlainValueError
     else if length hextet_str > 4 then Inl PlainValueError
     else if hextet_str = [] then Inl PlainValueError
     else Inr (hex_value hextet_str))"

text \<open>The format \<open>%x\<close>.\<close>

definition hex_char :: "nat \<Rightarrow> char" where
  "hex_char d = (if d < 10 then char_of (48 + d) else char_of (87 + d))"

fun hex_nat :: "nat \<Rightarrow> string" where
  "hex_nat n = (if n < 16 then [hex_char n] else hex_nat (n div 16) @ [hex_char (n mod 16)])"

declare hex_nat.simps [simp del]

text \<open>The search loop of \<open>_ip_int_from_string\<close> for an empty part strictly inside the
  list: the index found so far, or an error for a second one.\<close>

fun find_skip :: "string list \<Rightarrow> nat \<Rightarrow> nat list \<Rightarrow> nat option \<Rightarrow> ip_error + nat option" where
  "find_skip ps n [] skip = Inr skip"
| "find_skip ps n (i # is) skip =
    (if ps ! i = [] then
       (if skip \<noteq> None then Inl AddressValueError
        else find_skip ps n is (Some i))
     else find_skip ps n is skip)"

text \<open>The two loops that fold parsed hextets into the integer.\<close>

fun shift_in :: "int \<Rightarrow> string list \<Rightarrow> ip_error + int" where
  "shift_in ip_int [] = Inr ip_int"
| "shift_in ip_int (p # ps) =
    (case parse_hextet p of
       Inl e \<Rightarrow> Inl e
     | Inr h \<Rightarrow> shift_in (or (push_bit 16 ip_int) h) ps)"

text \<open>The parts of an address with an IPv4-style suffix: the suffix becomes two hextets.\<close>

definition convert_ipv4_suffix :: "string list \<Rightarrow> ip_error + string list" where
  "convert_ipv4_suffix parts =
    (if CHR ''.'' \<in> set (last parts) then
       (case IPv4Address_of_str (last parts) of
          Inl e \<Rightarrow> Inl AddressValueError
        | Inr ipv4_int \<Rightarrow>
            Inr (butlast parts @
                 [hex_nat (nat (and (drop_bit 16 ipv4_int) 65535)),
                  hex_nat (nat (and ipv4_int 65535))]))
     else Inr parts)"

text \<open>\<open>parts_hi\<close>, \<open>parts_lo\<close> and \<open>parts_skipped\<close>: how many parts stand before and after
  the \<open>'::'\<close>, and how many zero hextets it stands for.\<close>

definition count_parts :: "string list \<Rightarrow> ip_error + nat \<times> nat \<times> nat" where
  "count_parts parts =
    (case find_skip parts (length parts) [1 ..< length parts - 1] None of
       Inl e \<Rightarrow> Inl e
     | Inr (Some skip_index) \<Rightarrow>
         (let hi0 = skip_index;
              lo0 = length parts - skip_index - 1;
              hi = (if hd parts = [] then hi0 - 1 else hi0);
              lo = (if last parts = [] then lo0 - 1 else lo0)
          in if hd parts = [] \<and> hi \<noteq> 0 then Inl AddressValueError
             else if last parts = [] \<and> lo \<noteq> 0 then Inl AddressValueError
             else if 8 < hi + lo + 1 then Inl AddressValueError
             else Inr (hi, lo, 8 - (hi + lo)))
     | Inr None \<Rightarrow>
         if length parts \<noteq> 8 then Inl AddressValueError
         else if hd parts = [] then Inl AddressValueError
         else if last parts = [] then Inl AddressValueError
         else Inr (length parts, 0, 0))"

text \<open>The hextets before the \<open>'::'\<close>, the zeros it stands for, the hextets after it.\<close>

definition assemble_parts :: "string list \<Rightarrow> nat \<Rightarrow> nat \<Rightarrow> nat \<Rightarrow> ip_error + int" where
  "assemble_parts parts hi lo skipped =
    (case shift_in 0 (take hi parts) of
       Inl e \<Rightarrow> Inl AddressValueError
     | Inr a \<Rightarrow>
         (case shift_in (push_bit (16 * skipped) a) (drop (length parts - lo) parts) of
            Inl e \<Rightarrow> Inl AddressValueError
          | Inr b \<Rightarrow> Inr b))"

definition ip6_int_from_string :: "string \<Rightarrow> ip_error + int" where
  "ip6_int_from_string ip_str =
    (if ip_str = [] then Inl AddressValueError
     else
       (let parts0 = split_on CHR '':'' ip_str in
        if length parts0 < 3 then Inl AddressValueError
        else
          (case convert_ipv4_suffix parts0 of
             Inl e \<Rightarrow> Inl e
           | Inr parts \<Rightarrow>
               if length parts > 9 then Inl AddressValueError
               else
                 (case count_parts parts of
                    Inl e \<Rightarrow> Inl e
                  | Inr (hi, lo, skipped) \<Rightarrow> assemble_parts parts hi lo skipped))))"

text \<open>\<open>ip_str.partition('%')\<close> and the check of the scope identifier.\<close>

definition split_scope_id :: "string \<Rightarrow> ip_error + string \<times> string option" where
  "split_scope_id ip_str =
    (let addr = takeWhile (\<lambda>c. c \<noteq> CHR ''%'') ip_str;
         rest = dropWhile (\<lambda>c. c \<noteq> CHR ''%'') ip_str
     in case rest of
          [] \<Rightarrow> Inr (addr, None)
        | _ # scope_id \<Rightarrow>
            if scope_id = [] \<or> CHR ''%'' \<in> set scope_id then Inl AddressValueError
            else Inr (addr, Some scope_id))"

definition IPv6Address_of_str :: "string \<Rightarrow> ip_error + int \<times> string option" where
  "IPv6Address_of_str addr_str =
    (if CHR ''/'' \<in> set addr_str then Inl AddressValueError
     else case split_scope_id addr_str of
            Inl e \<Rightarrow> Inl e
          | Inr (a, scope_id) \<Rightarrow>
              (case ip6_int_from_string a of
                 Inl e \<Rightarrow> Inl e
               | Inr n \<Rightarrow> Inr (n, scope_id)))"

text \<open>
  The loop of \<open>_compress_hextets\<close> over the hextets from index \<open>i\<close> on. The state is the
  best run of \<open>'0'\<close> found (start and length) and the current run; \<open>-1\<close> is no start.
\<close>

fun compress_scan :: "nat \<Rightarrow> string list \<Rightarrow> int \<times> nat \<times> int \<times> nat \<Rightarrow> int \<times> nat" where
  "compress_scan i [] (bs, bl, ds, dl) = (bs, bl)"
| "compress_scan i (h # hs) (bs, bl, ds, dl) =
    (if h = ''0'' then
       (let dl' = dl + 1;
            ds' = (if ds = - 1 then int i else ds)
        in if dl' > bl then compress_scan (Suc i) hs (ds', dl', ds', dl')
           else compress_scan (Suc i) hs (bs, bl, ds', dl'))
     else compress_scan (Suc i) hs (bs, bl, - 1, 0))"

definition compress_hextets :: "string list \<Rightarrow> string list" where
  "compress_hextets hextets =
    (case compress_scan 0 hextets (- 1, 0, - 1, 0) of
       (best_start, best_len) \<Rightarrow>
         if best_len > 1 then
           (let s = nat best_start;
                e = s + best_len;
                h1 = (if e = length hextets then hextets @ [[]] else hextets);
                h2 = take s h1 @ [[]] @ drop e h1
            in if s = 0 then [] # h2 else h2)
         else hextets)"

text \<open>The eight 16-bit groups of a 128-bit integer, most significant first.\<close>

definition hextets_of :: "int \<Rightarrow> nat list" where
  "hextets_of ip_int = map (\<lambda>i. nat (ip_int div 2 ^ (16 * (7 - i)) mod 65536)) [0 ..< 8]"

definition string_from_ip6_int :: "int \<Rightarrow> string" where
  "string_from_ip6_int ip_int = join '':'' (compress_hextets (map hex_nat (hextets_of ip_int)))"

text \<open>\<open>str(address)\<close>.\<close>

fun str_address :: "address \<Rightarrow> string" where
  "str_address (IPv4Address n) = string_from_ip4_int n"
| "str_address (IPv6Address n scope_id) =
    (case scope_id of
       None \<Rightarrow> string_from_ip6_int n
     | Some sc \<Rightarrow> string_from_ip6_int n @ ''%'' @ sc)"

subsection \<open>Networks\<close>

text \<open>\<open>_split_optional_netmask\<close> and \<open>_split_addr_prefix\<close>: the address part and the part
  after the slash, when there is one.\<close>

definition split_addr_prefix :: "string \<Rightarrow> ip_error + string \<times> string option" where
  "split_addr_prefix a =
    (let addr = split_on CHR ''/'' a in
     if length addr > 2 then Inl AddressValueError
     else if length addr > 1 then Inr (addr ! 0, Some (addr ! 1))
     else Inr (addr ! 0, None))"

definition prefix_from_prefix_string :: "ip_version \<Rightarrow> string \<Rightarrow> ip_error + nat" where
  "prefix_from_prefix_string v prefixlen_str =
    (if \<not> (prefixlen_str \<noteq> [] \<and> list_all is_digit prefixlen_str) then Inl NetmaskValueError
     else if \<not> dec_value prefixlen_str \<le> int (max_prefixlen v) then Inl NetmaskValueError
     else Inr (nat (dec_value prefixlen_str)))"

text \<open>\<open>n.bit_length()\<close> of an integer that is not negative.\<close>

function bit_length :: "int \<Rightarrow> nat" where
  "bit_length n = (if n \<le> 0 then 0 else Suc (bit_length (n div 2)))"
  by pat_completeness auto
termination
  by (relation "measure nat") auto

declare bit_length.simps [simp del]

definition count_righthand_zero_bits :: "int \<Rightarrow> nat \<Rightarrow> nat" where
  "count_righthand_zero_bits number bits =
    (if number = 0 then bits
     else min bits (bit_length (and (not number) (number - 1))))"

definition prefix_from_ip_int :: "ip_version \<Rightarrow> int \<Rightarrow> ip_error + nat" where
  "prefix_from_ip_int v ip_int =
    (let trailing_zeroes = count_righthand_zero_bits ip_int (max_prefixlen v);
         plen = max_prefixlen v - trailing_zeroes;
         leading_ones = drop_bit trailing_zeroes ip_int;
         all_ones = 2 ^ plen - 1
     in if leading_ones \<noteq> all_ones then Inl PlainValueError else Inr plen)"

definition prefix_from_ip_string :: "string \<Rightarrow> ip_error + nat" where
  "prefix_from_ip_string ip_str =
    (case ip4_int_from_string ip_str of
       Inl e \<Rightarrow> Inl NetmaskValueError
     | Inr ip_int \<Rightarrow>
         (case prefix_from_ip_int V4 ip_int of
            Inr p \<Rightarrow> Inr p
          | Inl e \<Rightarrow>
              (case prefix_from_ip_int V4 (xor ip_int (ALL_ONES V4)) of
                 Inr p \<Rightarrow> Inr p
               | Inl e \<Rightarrow> Inl NetmaskValueError)))"

text \<open>\<open>_make_netmask\<close>: the prefix length. Without a slash the argument is the integer
  \<open>_max_prefixlen\<close>; IPv4 also accepts a netmask or hostmask in dotted form.\<close>

definition make_netmask :: "ip_version \<Rightarrow> string option \<Rightarrow> ip_error + nat" where
  "make_netmask v arg =
    (case arg of
       None \<Rightarrow> Inr (max_prefixlen v)
     | Some s \<Rightarrow>
         (case v of
            V4 \<Rightarrow>
              (case prefix_from_prefix_string V4 s of
                 Inr p \<Rightarrow> Inr p
               | Inl e \<Rightarrow> prefix_from_ip_string s)
          | V6 \<Rightarrow> prefix_from_prefix_string V6 s))"

definition ip_int_from_prefix :: "ip_version \<Rightarrow> nat \<Rightarrow> int" where
  "ip_int_from_prefix v plen = xor (ALL_ONES v) (drop_bit plen (ALL_ONES v))"

text \<open>The part of \<open>IPv4Network.__init__\<close> and \<open>IPv6Network.__init__\<close> after the address
  object and the prefix length are there.\<close>

definition make_network ::
  "ip_version \<Rightarrow> bool \<Rightarrow> int \<Rightarrow> address \<Rightarrow> nat \<Rightarrow> ip_error + network" where
  "make_network v strict packed obj plen =
    (let netmask = ip_int_from_prefix v plen in
     if and packed netmask \<noteq> packed then
       (if strict then Inl PlainValueError
        else Inr \<lparr>version = v, network_address = and packed netmask, prefixlen = plen,
                  given_address = obj\<rparr>)
     else Inr \<lparr>version = v, network_address = packed, prefixlen = plen, given_address = obj\<rparr>)"

definition IPv4Network :: "string \<Rightarrow> bool \<Rightarrow> ip_error + network" where
  "IPv4Network a strict =
    (case split_addr_prefix a of
       Inl e \<Rightarrow> Inl e
     | Inr (addr, msk) \<Rightarrow>
         (case IPv4Address_of_str addr of
            Inl e \<Rightarrow> Inl e
          | Inr packed \<Rightarrow>
              (case make_netmask V4 msk of
                 Inl e \<Rightarrow> Inl e
               | Inr plen \<Rightarrow> make_network V4 strict packed (IPv4Address packed) plen)))"

definition IPv6Network :: "string \<Rightarrow> bool \<Rightarrow> ip_error + network" where
  "IPv6Network a strict =
    (case split_addr_prefix a of
       Inl e \<Rightarrow> Inl e
     | Inr (addr, msk) \<Rightarrow>
         (case IPv6Address_of_str addr of
            Inl e \<Rightarrow> Inl e
          | Inr (packed, scope_id) \<Rightarrow>
              (case make_netmask V6 msk of
                 Inl e \<Rightarrow> Inl e
               | Inr plen \<Rightarrow> make_network V6 strict packed (IPv6Address packed scope_id) plen)))"

text \<open>\<open>ip_network\<close> tries IPv4, then IPv6; an \<open>AddressValueError\<close> or
  \<open>NetmaskValueError\<close> of either is swallowed, any other exception propagates.\<close>

definition ip_network :: "string \<Rightarrow> bool \<Rightarrow> ip_error + network" where
  "ip_network a strict =
    (case IPv4Network a strict of
       Inr n \<Rightarrow> Inr n
     | Inl PlainValueError \<Rightarrow> Inl PlainValueError
     | Inl _ \<Rightarrow>
         (case IPv6Network a strict of
            Inr n \<Rightarrow> Inr n
          | Inl PlainValueError \<Rightarrow> Inl PlainValueError
          | Inl _ \<Rightarrow> Inl PlainValueError))"

definition hostmask :: "network \<Rightarrow> int" where
  "hostmask n = xor (ip_int_from_prefix (version n) (prefixlen n)) (ALL_ONES (version n))"

definition broadcast_address :: "network \<Rightarrow> int" where
  "broadcast_address n = or (network_address n) (hostmask n)"

definition address_class :: "ip_version \<Rightarrow> int \<Rightarrow> address" where
  "address_class v x = (case v of V4 \<Rightarrow> IPv4Address x | V6 \<Rightarrow> IPv6Address x None)"

text \<open>
  \<open>network.hosts()\<close>. A network of two addresses (prefix 31 or 127) yields both, a
  network of one address yields the address given; otherwise IPv4 leaves out the network
  and the broadcast address, and IPv6 leaves out the network address only.
\<close>

definition hosts :: "network \<Rightarrow> address list" where
  "hosts n =
    (if prefixlen n = max_prefixlen (version n) - 1 then
       map (address_class (version n)) [network_address n .. broadcast_address n]
     else if prefixlen n = max_prefixlen (version n) then [given_address n]
     else (case version n of
             V4 \<Rightarrow> map (address_class V4) [network_address n + 1 .. broadcast_address n - 1]
           | V6 \<Rightarrow> map (address_class V6) [network_address n + 1 .. broadcast_address n]))"

text \<open>The loop of \<open>expand_cidr\<close> (ip\_range.py, lines 18-21) from index \<open>idx\<close> on.\<close>

fun expand_loop :: "int option \<Rightarrow> int \<Rightarrow> address list \<Rightarrow> string list \<Rightarrow> string list" where
  "expand_loop mh idx [] result = result"
| "expand_loop mh idx (host # rest) result =
    (if mh \<noteq> None \<and> idx \<ge> the mh then result
     else expand_loop mh (idx + 1) rest (result @ [str_address host]))"

definition expand_cidr :: "string \<Rightarrow> int option \<Rightarrow> ip_error + string list" where
  "expand_cidr cidr mh =
    (case ip_network cidr False of
       Inl e \<Rightarrow> Inl e
     | Inr net \<Rightarrow> Inr (expand_loop mh 0 (hosts net) []))"


text \<open>\<open>int(address)\<close> and \<open>address.version\<close>.\<close>

fun address_int :: "address \<Rightarrow> int" where
  "address_int (IPv4Address n) = n"
| "address_int (IPv6Address n scope_id) = n"

fun address_version :: "address \<Rightarrow> ip_version" where
  "address_version (IPv4Address n) = V4"
| "address_version (IPv6Address n scope_id) = V6"

text \<open>The shape of every network the lenient constructor makes.\<close>

definition net_ok :: "network \<Rightarrow> bool" where
  "net_ok n =
    (prefixlen n \<le> max_prefixlen (version n) \<and>
     address_version (given_address n) = version n \<and>
     0 \<le> address_int (given_address n) \<and>
     address_int (given_address n) \<le> mask (max_prefixlen (version n)) \<and>
     network_address n =
       and (address_int (given_address n)) (ip_int_from_prefix (version n) (prefixlen n)))"

text \<open>A run of \<open>'0'\<close> hextets of length \<open>l\<close> starting at index \<open>s\<close>.\<close>

definition zero_run :: "string list \<Rightarrow> int \<Rightarrow> nat \<Rightarrow> bool" where
  "zero_run H s l = (0 \<le> s \<and> nat s + l \<le> length H \<and> (\<forall>j < l. H ! (nat s + j) = ''0''))"

text \<open>The inverse of \<open>_compress_hextets\<close> on lists of \<open>n\<close> non-empty hextets: the empty
  strings that mark the \<open>'::'\<close> are replaced by as many \<open>'0'\<close> as are missing.\<close>

definition restore_hextets :: "nat \<Rightarrow> string list \<Rightarrow> string list" where
  "restore_hextets n R =
    (let before = takeWhile (\<lambda>h. h \<noteq> []) R;
         after = filter (\<lambda>h. h \<noteq> []) (dropWhile (\<lambda>h. h \<noteq> []) R)
     in before @ replicate (n - length before - length after) ''0'' @ after)"

section \<open>Scan orchestrator: the scan (scanner.py, \<open>run_scan\<close>)\<close>

text \<open>
  \<open>run_scan\<close> creates one task per host and port, all sharing one
  \<open>asyncio.Semaphore(cfg.concurrency)\<close>, and collects the results in completion order. A
  task waits at \<open>async with sem\<close>, runs its body once admitted, and leaves the block when
  the body is done. Which task moves next is the choice of the event loop and of the
  network: an interleaving is a list of events.
\<close>

datatype phase = Waiting | Running | Finished

record task =
  t_host :: string
  t_port :: int
  t_phase :: phase

record scan_state =
  sem_value :: int
  tasks :: "task list"
  results :: "ScanResult list"

text \<open>\<open>Acquire i\<close>: task \<open>i\<close> passes the semaphore. \<open>Complete i env\<close>: the body of task \<open>i\<close>
  ends, having met \<open>env\<close>; the semaphore is released and the result is collected.\<close>

datatype event = Acquire nat | Complete nat probe_env

text \<open>One event. \<open>None\<close>: the event cannot happen in this state (the semaphore admits a
  task only while its value is positive; only an admitted task can complete).\<close>

definition step :: "ScannerConfig \<Rightarrow> event \<Rightarrow> scan_state \<Rightarrow> scan_state option" where
  "step cfg ev s =
    (case ev of
       Acquire i \<Rightarrow>
         if i < length (tasks s) \<and> t_phase (tasks s ! i) = Waiting \<and> sem_value s > 0 then
           Some (s\<lparr>sem_value := sem_value s - 1,
                   tasks := (tasks s)[i := (tasks s ! i)\<lparr>t_phase := Running\<rparr>]\<rparr>)
         else None
     | Complete i env \<Rightarrow>
         if i < length (tasks s) \<and> t_phase (tasks s ! i) = Running then
           Some (s\<lparr>sem_value := sem_value s + 1,
                   tasks := (tasks s)[i := (tasks s ! i)\<lparr>t_phase := Finished\<rparr>],
                   results := results s @
                     [scan_host_port (t_host (tasks s ! i)) (t_port (tasks s ! i)) cfg env]\<rparr>)
         else None)"

fun run :: "ScannerConfig \<Rightarrow> event list \<Rightarrow> scan_state \<Rightarrow> scan_state option" where
  "run cfg [] s = Some s"
| "run cfg (ev # evs) s =
    (case step cfg ev s of
       None \<Rightarrow> None
     | Some s' \<Rightarrow> run cfg evs s')"

text \<open>The number of tasks past admission and not yet finished.\<close>

definition active :: "scan_state \<Rightarrow> nat" where
  "active s = length (filter (\<lambda>t. t_phase t = Running) (tasks s))"


text \<open>The state after the two nested loops that create the tasks (scanner.py, lines
  63-68): one waiting task per host and port, hosts outermost.\<close>

definition create_tasks :: "string list \<Rightarrow> int list \<Rightarrow> task list" where
  "create_tasks hs ports =
     concat (map (\<lambda>h. map (\<lambda>p. \<lparr>t_host = h, t_port = p, t_phase = Waiting\<rparr>) ports) hs)"

datatype scan_error = RangeError ip_error | SemaphoreValueError

text \<open>The start of \<open>run_scan\<close>: the expansion may raise, and so does the semaphore for a
  negative value.\<close>

definition start_scan :: "string \<Rightarrow> int list \<Rightarrow> ScannerConfig \<Rightarrow> scan_error + scan_state" where
  "start_scan cidr ports cfg =
    (case expand_cidr cidr (Some (max_hosts cfg)) of
       Inl e \<Rightarrow> Inl (RangeError e)
     | Inr hs \<Rightarrow>
         if concurrency cfg < 0 then Inl SemaphoreValueError
         else Inr \<lparr>sem_value = concurrency cfg, tasks = create_tasks hs ports, results = []\<rparr>)"

text \<open>The state of the scan after the events of an interleaving; \<open>None\<close> when the events
  cannot happen in that order.\<close>

definition scan_after ::
  "string \<Rightarrow> int list \<Rightarrow> ScannerConfig \<Rightarrow> event list \<Rightarrow> scan_error + scan_state option" where
  "scan_after cidr ports cfg sched =
    (case start_scan cidr ports cfg of
       Inl e \<Rightarrow> Inl e
     | Inr s0 \<Rightarrow> Inr (run cfg sched s0))"


text \<open>The host and port a result is about.\<close>

definition target :: "ScanResult \<Rightarrow> string \<times> int" where
  "target r = (ip r, port r)"

text \<open>The host and port a task is about, and the number of tasks in a phase.\<close>

definition task_target :: "task \<Rightarrow> string \<times> int" where
  "task_target t = (t_host t, t_port t)"

definition in_phase :: "phase \<Rightarrow> task list \<Rightarrow> nat" where
  "in_phase ph ts = length (filter (\<lambda>t. t_phase t = ph) ts)"

text \<open>What every state of a scan satisfies: the semaphore's value and the admitted tasks
  add up to the configured concurrency, the tasks are those created, and the results
  collected are those of the finished tasks.\<close>

definition scan_inv :: "ScannerConfig \<Rightarrow> (string \<times> int) list \<Rightarrow> scan_state \<Rightarrow> bool" where
  "scan_inv cfg tgts s =
    (0 \<le> sem_value s \<and>
     sem_value s + int (in_phase Running (tasks s)) = concurrency cfg \<and>
     map task_target (tasks s) = tgts \<and>
     mset (map target (results s)) =
       mset (map task_target (filter (\<lambda>t. t_phase t = Finished) (tasks s))))"

section \<open>Properties\<close>

subsection \<open>One task\<close>

text \<open>
  C3. Every result produced by a task with \<open>is_open = False\<close> has neither a banner nor a
  service label: both are populated only when the port is open.
\<close>

theorem closed_result_has_no_banner_or_service:
  "\<not> is_open (scan_host_port host p cfg env) \<longrightarrow>
     banner (scan_host_port host p cfg env) = None \<and>
     service (scan_host_port host p cfg env) = None"
  by (simp add: scan_host_port_def Let_def)

theorem closed_result_has_no_banner_or_service_witness:
  "\<not> is_open (scan_host_port ''10.0.0.1'' 22 
        \<lparr>timeout = 2, max_hosts = 512, concurrency = 200, banner_max_bytes = 2048\<rparr>
        \<lparr>probe_ok = False, sniff = \<lparr>conn_ok = True, send_ok = True, reply = Some [83, 83, 72]\<rparr>,
         utcnow = \<lparr>year = 2024, month = 1, day = 2, hour = 3, minute = 4, second = 5,
                   microsecond = 6\<rparr>\<rparr>) \<and>
   banner (scan_host_port ''10.0.0.1'' 22 
        \<lparr>timeout = 2, max_hosts = 512, concurrency = 200, banner_max_bytes = 2048\<rparr>
        \<lparr>probe_ok = False, sniff = \<lparr>conn_ok = True, send_ok = True, reply = Some [83, 83, 72]\<rparr>,
         utcnow = \<lparr>year = 2024, month = 1, day = 2, hour = 3, minute = 4, second = 5,
                   microsecond = 6\<rparr>\<rparr>) = None \<and>
   service (scan_host_port ''10.0.0.1'' 22 
        \<lparr>timeout = 2, max_hosts = 512, concurrency = 200, banner_max_bytes = 2048\<rparr>
        \<lparr>probe_ok = False, sniff = \<lparr>conn_ok = True, send_ok = True, reply = Some [83, 83, 72]\<rparr>,
         utcnow = \<lparr>year = 2024, month = 1, day = 2, hour = 3, minute = 4, second = 5,
                   microsecond = 6\<rparr>\<rparr>) = None"
  using closed_result_has_no_banner_or_service
    [of "''10.0.0.1''" 22
        "\<lparr>timeout = 2, max_hosts = 512, concurrency = 200, banner_max_bytes = 2048\<rparr>"
        "\<lparr>probe_ok = False, sniff = \<lparr>conn_ok = True, send_ok = True, reply = Some [83, 83, 72]\<rparr>,
         utcnow = \<lparr>year = 2024, month = 1, day = 2, hour = 3, minute = 4, second = 5,
                   microsecond = 6\<rparr>\<rparr>"]
  by (simp add: scan_host_port_def check_port_def Let_def)

subsection \<open>Result store\<close>

lemma rows_of_Nil [simp]: "rows_of io k n [] = []"
  by (simp add: rows_of_def)

lemma rows_of_Cons:
  "rows_of io k n (r # rs) = row_of (Suc n) (clock io k) r # rows_of io (Suc k) (Suc n) rs"
  by (simp add: rows_of_def enumerate_Suc_eq split_def o_def)

lemma length_rows_of [simp]: "length (rows_of io k n rs) = length rs"
  by (simp add: rows_of_def)

lemma to_record_scanned_at:
  "rec_scanned_at (to_record r now) =
     Some (case scanned_at r of None \<Rightarrow> isoformat now | Some t \<Rightarrow> isoformat t)"
  by (simp add: to_record_def split: option.splits)

lemma insert_loop_ok:
  "insert_loop io k rs c = Inr c' \<Longrightarrow> txn c = Some t \<Longrightarrow>
     stored c' = stored c \<and>
     txn c' = Some \<lparr>scans = scans t @ rows_of io k (seq t) rs, seq = seq t + length rs\<rparr> \<and>
     (\<forall>j < length rs. \<not> insert_fails io (k + j))"
proof (induction rs arbitrary: k c t)
  case Nil
  then show ?case by simp
next
  case (Cons r rs)
  from Cons.prems obtain c1 where
    c1: "execute_insert (insert_fails io k) (rec_ip (to_record r (clock io k)))
           (rec_port (to_record r (clock io k)))
           (if rec_is_open (to_record r (clock io k)) then 1 else 0)
           (rec_service (to_record r (clock io k))) (rec_banner (to_record r (clock io k)))
           (rec_scanned_at (to_record r (clock io k))) c = Inr c1"
    and rest: "insert_loop io (Suc k) rs c1 = Inr c'"
    by (auto simp: Let_def split: sum.splits)
  from c1 Cons.prems(2) have nf: "\<not> insert_fails io k"
    and s1: "stored c1 = stored c"
    and t1: "txn c1 = Some \<lparr>scans = scans t @ [row_of (Suc (seq t)) (clock io k) r], seq = Suc (seq t)\<rparr>"
    by (auto simp: execute_insert_def row_of_def Let_def split: if_splits)
  from Cons.IH[OF rest t1] s1 have
    "stored c' = stored c"
    "txn c' = Some \<lparr>scans = scans t @ rows_of io k (seq t) (r # rs), seq = seq t + length (r # rs)\<rparr>"
    "\<forall>j < length rs. \<not> insert_fails io (Suc k + j)"
    by (simp_all add: rows_of_Cons)
  with nf show ?case
    by (auto simp: less_Suc_eq_0_disj)
qed

lemma insert_loop_total:
  "txn c = Some t \<Longrightarrow> \<forall>j < length rs. \<not> insert_fails io (k + j) \<Longrightarrow>
     \<exists>c'. insert_loop io k rs c = Inr c'"
proof (induction rs arbitrary: k c t)
  case Nil
  then show ?case by simp
next
  case (Cons r rs)
  from Cons.prems(2) have nf: "\<not> insert_fails io k" by force
  from Cons.prems(2) have rest: "\<forall>j < length rs. \<not> insert_fails io (Suc k + j)" by force
  obtain c1 where c1: "execute_insert (insert_fails io k) (rec_ip (to_record r (clock io k)))
           (rec_port (to_record r (clock io k)))
           (if rec_is_open (to_record r (clock io k)) then 1 else 0)
           (rec_service (to_record r (clock io k))) (rec_banner (to_record r (clock io k)))
           (rec_scanned_at (to_record r (clock io k))) c = Inr c1" and t1: "\<exists>t1. txn c1 = Some t1"
    using nf by (simp add: execute_insert_def to_record_scanned_at Let_def)
  from t1 obtain t1 where "txn c1 = Some t1" by blast
  from Cons.IH[OF this rest] c1 show ?case by (simp add: Let_def)
qed

lemma save_results_cases:
  "(\<exists>e. save_results io db rs = (Inl e, db) \<and>
        (begin_fails io \<or> (\<exists>j < length rs. insert_fails io j) \<or> commit_fails io)) \<or>
   (save_results io db rs =
      (Inr (), \<lparr>scans = scans db @ rows_of io 0 (seq db) rs, seq = seq db + length rs\<rparr>) \<and>
    \<not> begin_fails io \<and> (\<forall>j < length rs. \<not> insert_fails io j) \<and> \<not> commit_fails io)"
proof (cases "begin_fails io")
  case True
  then show ?thesis
    by (simp add: save_results_def sqlite_connect_def execute_begin_def sqlite_close_def)
next
  case nb: False
  let ?c1 = "\<lparr>stored = db, txn = Some db\<rparr>"
  have b: "execute_begin (begin_fails io) (sqlite_connect db) = Inr ?c1"
    using nb by (simp add: execute_begin_def sqlite_connect_def)
  show ?thesis
  proof (cases "insert_loop io 0 rs ?c1")
    case (Inl e)
    have "\<exists>j < length rs. insert_fails io j"
    proof (rule ccontr)
      assume "\<not> ?thesis"
      then have "\<forall>j < length rs. \<not> insert_fails io (0 + j)" by simp
      from insert_loop_total[OF _ this, of ?c1 db] Inl show False by simp
    qed
    with Inl b show ?thesis
      by (simp add: save_results_def sqlite_close_def)
  next
    case (Inr c2)
    from insert_loop_ok[OF Inr, of db] have
      s2: "stored c2 = db" and
      t2: "txn c2 = Some \<lparr>scans = scans db @ rows_of io 0 (seq db) rs, seq = seq db + length rs\<rparr>" and
      nf: "\<forall>j < length rs. \<not> insert_fails io j"
      by simp_all
    show ?thesis
    proof (cases "commit_fails io")
      case True
      with b Inr s2 show ?thesis
        by (simp add: save_results_def sqlite_commit_def sqlite_close_def)
    next
      case False
      with b Inr t2 nb nf show ?thesis
        by (simp add: save_results_def sqlite_commit_def sqlite_close_def)
    qed
  qed
qed

lemma utf_8_decode_ignore_total: "\<exists>t. utf_8_decode Ignore bs = Inr t"
proof (induction "length bs" arbitrary: bs rule: less_induct)
  case less
  show ?case
  proof (cases bs)
    case Nil
    then show ?thesis by simp
  next
    case (Cons b r)
    show ?thesis
    proof (cases "utf8_step b r")
      case (Decoded c n)
      have "length (drop n r) < length bs" using Cons by simp
      from less[OF this] obtain t where "utf_8_decode Ignore (drop n r) = Inr t" by blast
      with Cons Decoded show ?thesis by simp
    next
      case (Malformed n)
      have "length (drop n r) < length bs" using Cons by simp
      from less[OF this] obtain t where "utf_8_decode Ignore (drop n r) = Inr t" by blast
      with Cons Malformed show ?thesis by simp
    qed
  qed
qed

lemma rows_of_nth:
  "k < length rs \<Longrightarrow> rows_of io 0 n rs ! k = row_of (Suc (n + k)) (clock io k) (rs ! k)"
  by (simp add: rows_of_def nth_enumerate_eq)


text \<open>
  C5. \<open>save_results\<close> is atomic. When no statement fails, the call returns normally and the
  table is the old table followed by one row per result, in order, made durable by the one
  commit; when \<open>BEGIN\<close>, any \<open>INSERT\<close> or the \<open>COMMIT\<close> fails, the call raises and the
  database file is exactly what it was before the call.
\<close>

theorem save_results_atomic:
  "(if begin_fails io \<or> (\<exists>j < length rs. insert_fails io j) \<or> commit_fails io
    then (\<exists>e. fst (save_results io db rs) = Inl e) \<and> snd (save_results io db rs) = db
    else fst (save_results io db rs) = Inr () \<and>
         scans (snd (save_results io db rs)) = scans db @ rows_of io 0 (seq db) rs \<and>
         length (rows_of io 0 (seq db) rs) = length rs)"
  using save_results_cases [of io db rs] by auto

theorem save_results_atomic_witness:
  "snd (save_results
      \<lparr>begin_fails = False, insert_fails = (\<lambda>k. k = 1), commit_fails = False,
       clock = (\<lambda>k. \<lparr>year = 2024, month = 1, day = 2, hour = 3, minute = 4, second = 5,
                       microsecond = 0\<rparr>)\<rparr>
      \<lparr>scans = [], seq = 0\<rparr>
      [\<lparr>ip = ''10.0.0.1'', port = 22, is_open = False, service = None, banner = None,
        scanned_at = None\<rparr>,
       \<lparr>ip = ''10.0.0.1'', port = 80, is_open = False, service = None, banner = None,
        scanned_at = None\<rparr>]) = \<lparr>scans = [], seq = 0\<rparr> \<and>
   map row_port (scans (snd (save_results
      \<lparr>begin_fails = False, insert_fails = (\<lambda>k. False), commit_fails = False,
       clock = (\<lambda>k. \<lparr>year = 2024, month = 1, day = 2, hour = 3, minute = 4, second = 5,
                       microsecond = 0\<rparr>)\<rparr>
      \<lparr>scans = [], seq = 0\<rparr>
      [\<lparr>ip = ''10.0.0.1'', port = 22, is_open = False, service = None, banner = None,
        scanned_at = None\<rparr>,
       \<lparr>ip = ''10.0.0.1'', port = 80, is_open = False, service = None, banner = None,
        scanned_at = None\<rparr>]))) = [22, 80]"
  using save_results_atomic
     [of "\<lparr>begin_fails = False, insert_fails = (\<lambda>k. k = 1), commit_fails = False,
       clock = (\<lambda>k. \<lparr>year = 2024, month = 1, day = 2, hour = 3, minute = 4, second = 5,
                       microsecond = 0\<rparr>)\<rparr>"
      "[\<lparr>ip = ''10.0.0.1'', port = 22, is_open = False, service = None, banner = None,
        scanned_at = None\<rparr>,
       \<lparr>ip = ''10.0.0.1'', port = 80, is_open = False, service = None, banner = None,
        scanned_at = None\<rparr>]" "\<lparr>scans = [], seq = 0\<rparr>"]
    save_results_atomic
     [of "\<lparr>begin_fails = False, insert_fails = (\<lambda>k. False), commit_fails = False,
       clock = (\<lambda>k. \<lparr>year = 2024, month = 1, day = 2, hour = 3, minute = 4, second = 5,
                       microsecond = 0\<rparr>)\<rparr>"
      "[\<lparr>ip = ''10.0.0.1'', port = 22, is_open = False, service = None, banner = None,
        scanned_at = None\<rparr>,
       \<lparr>ip = ''10.0.0.1'', port = 80, is_open = False, service = None, banner = None,
        scanned_at = None\<rparr>]" "\<lparr>scans = [], seq = 0\<rparr>"]
  by (simp add: rows_of_def row_of_def to_record_def)

text \<open>
  C10. Every row persisted by \<open>save_results\<close> has a \<open>scanned_at\<close> that is not NULL:
  \<open>to_record\<close> writes the ISO form of the result's timestamp, or of the current time when
  the result has none.
\<close>

theorem persisted_rows_have_scanned_at:
  "fst (save_results io db rs) = Inr () \<Longrightarrow> k < length rs \<Longrightarrow>
     length (scans (snd (save_results io db rs))) = length (scans db) + length rs \<and>
     rec_scanned_at (to_record (rs ! k) (clock io k)) =
       Some (case scanned_at (rs ! k) of None \<Rightarrow> isoformat (clock io k) | Some t \<Rightarrow> isoformat t) \<and>
     row_scanned_at (scans (snd (save_results io db rs)) ! (length (scans db) + k)) =
       rec_scanned_at (to_record (rs ! k) (clock io k))"
  using save_results_cases [of io db rs]
  by (auto simp: rows_of_nth row_of_def to_record_scanned_at Let_def)

theorem persisted_rows_have_scanned_at_witness:
  "fst (save_results
      \<lparr>begin_fails = False, insert_fails = (\<lambda>k. False), commit_fails = False,
       clock = (\<lambda>k. \<lparr>year = 2024, month = 1, day = 2, hour = 3, minute = 4, second = 5,
                       microsecond = 0\<rparr>)\<rparr>
      \<lparr>scans = [], seq = 0\<rparr>
      [\<lparr>ip = ''10.0.0.1'', port = 22, is_open = False, service = None, banner = None,
        scanned_at = None\<rparr>]) = Inr () \<and> (0::nat) < length [\<lparr>ip = ''10.0.0.1'', port = 22, is_open = False, service = None, banner = None,
        scanned_at = None\<rparr>] \<and>
   map row_scanned_at (scans (snd (save_results
      \<lparr>begin_fails = False, insert_fails = (\<lambda>k. False), commit_fails = False,
       clock = (\<lambda>k. \<lparr>year = 2024, month = 1, day = 2, hour = 3, minute = 4, second = 5,
                       microsecond = 0\<rparr>)\<rparr>
      \<lparr>scans = [], seq = 0\<rparr>
      [\<lparr>ip = ''10.0.0.1'', port = 22, is_open = False, service = None, banner = None,
        scanned_at = None\<rparr>]))) = [Some ''2024-01-02T03:04:05'']"
proof -
  let ?io = "\<lparr>begin_fails = False, insert_fails = (\<lambda>k. False), commit_fails = False,
       clock = (\<lambda>k. \<lparr>year = 2024, month = 1, day = 2, hour = 3, minute = 4, second = 5,
                       microsecond = 0\<rparr>)\<rparr>"
  let ?db = "\<lparr>scans = [], seq = 0\<rparr>"
  let ?rs = "[\<lparr>ip = ''10.0.0.1'', port = 22, is_open = False, service = None, banner = None,
        scanned_at = None\<rparr>]"
  have ok: "fst (save_results ?io ?db ?rs) = Inr ()"
    by (simp add: save_results_def sqlite_connect_def execute_begin_def execute_insert_def
        sqlite_commit_def sqlite_close_def to_record_def Let_def)
  have iso: "isoformat \<lparr>year = 2024, month = 1, day = 2, hour = 3, minute = 4, second = 5,
                       microsecond = 0\<rparr> = ''2024-01-02T03:04:05''"
    by code_simp
  have k: "(0::nat) < length ?rs" by simp
  from persisted_rows_have_scanned_at [OF ok k] ok iso show ?thesis
    by (cases "scans (snd (save_results ?io ?db ?rs))") (simp_all add: to_record_def)
qed

subsection \<open>Banner decoding\<close>

text \<open>
  C6 (evaluation of the code). The first decode is called with the error handler
  \<open>ignore\<close>, which never raises, so the Latin-1 branch is never taken: bytes that are not
  UTF-8 are dropped. For the two bytes FF FE both grabbers return the empty text, where
  the single-byte decoding gives the two characters 255 and 254.
\<close>

theorem banner_fallback_never_taken:
  "grab_raw_banner host p tmo 2048 \<lparr>conn_ok = True, send_ok = True, reply = Some [0xFF, 0xFE]\<rparr>
     = Some [] \<and>
   grab_http_banner host p tmo 2048 \<lparr>conn_ok = True, send_ok = True, reply = Some [0xFF, 0xFE]\<rparr>
     = Some [] \<and>
   bytes_decode [0xFF, 0xFE] UTF8 Strict = Inl UnicodeDecodeError \<and>
   bytes_decode [0xFF, 0xFE] Latin1 Ignore = Inr [255, 254] \<and>
   (\<forall>data. \<exists>t. bytes_decode data UTF8 Ignore = Inr t)"
  using utf_8_decode_ignore_total
  by (simp add: grab_raw_banner_def grab_http_banner_def read_banner_def reader_read_def
      bytes_decode_def latin_1_decode_def utf8_step.simps)

subsection \<open>Port lists\<close>

lemma digit_char_is_digit: "d < 10 \<Longrightarrow> is_digit (digit_char d)"
  by (simp add: is_digit_def digit_char_def)

lemma digit_val_digit_char: "d < 10 \<Longrightarrow> digit_val (digit_char d) = d"
  by (simp add: digit_val_def digit_char_def)

lemma str_nat_digits: "c \<in> set (str_nat n) \<Longrightarrow> is_digit c"
proof (induction n arbitrary: c rule: str_nat.induct)
  case (1 n)
  show ?case
  proof (cases "n < 10")
    case True
    with "1.prems" show ?thesis
      by (simp add: str_nat.simps [of n] digit_char_is_digit)
  next
    case False
    with "1.prems" have "c \<in> set (str_nat (n div 10)) \<or> c = digit_char (n mod 10)"
      by (auto simp: str_nat.simps [of n])
    with "1.IH" False show ?thesis
      by (auto simp: digit_char_is_digit)
  qed
qed

lemma str_nat_nonempty: "str_nat n \<noteq> []"
  by (simp add: str_nat.simps [of n])

lemma is_digit_plain:
  "is_digit c \<Longrightarrow> \<not> is_space c \<and> c \<noteq> CHR '','' \<and> c \<noteq> CHR ''-'' \<and> c \<noteq> CHR ''+'' \<and> c \<noteq> CHR ''_''"
  by (auto simp: is_digit_def is_space_def)

lemma digits_acc_snoc:
  "\<forall>x \<in> set s. is_digit x \<Longrightarrow> is_digit c \<Longrightarrow>
     digits_acc acc (s @ [c]) = map_option (\<lambda>v. v * 10 + digit_val c) (digits_acc acc s)"
  by (induction s arbitrary: acc) simp_all

lemma parse_decimal_snoc:
  "\<forall>x \<in> set s. is_digit x \<Longrightarrow> is_digit c \<Longrightarrow> s \<noteq> [] \<Longrightarrow>
     parse_decimal (s @ [c]) = map_option (\<lambda>v. v * 10 + digit_val c) (parse_decimal s)"
  by (cases s) (simp_all add: parse_decimal_def digits_acc_snoc)

lemma parse_decimal_str_nat: "parse_decimal (str_nat n) = Some n"
proof (induction n rule: str_nat.induct)
  case (1 n)
  show ?case
  proof (cases "n < 10")
    case True
    then show ?thesis
      by (simp add: str_nat.simps [of n] parse_decimal_def digit_char_is_digit digit_val_digit_char)
  next
    case False
    have d: "is_digit (digit_char (n mod 10))" by (simp add: digit_char_is_digit)
    have "parse_decimal (str_nat (n div 10) @ [digit_char (n mod 10)]) =
            map_option (\<lambda>v. v * 10 + digit_val (digit_char (n mod 10))) (parse_decimal (str_nat (n div 10)))"
      by (rule parse_decimal_snoc) (auto simp: str_nat_digits d str_nat_nonempty)
    with "1.IH" False show ?thesis
      by (simp add: str_nat.simps [of n] digit_val_digit_char)
  qed
qed

lemma strip_plain:
  "s \<noteq> [] \<Longrightarrow> \<not> is_space (hd s) \<Longrightarrow> \<not> is_space (last s) \<Longrightarrow> strip s = s"
proof -
  assume a: "s \<noteq> []" "\<not> is_space (hd s)" "\<not> is_space (last s)"
  then have 1: "dropWhile is_space s = s" by (cases s) simp_all
  from a have "rev s \<noteq> []" "\<not> is_space (hd (rev s))" by (simp_all add: hd_rev)
  then have 2: "dropWhile is_space (rev s) = rev s" by (cases "rev s") simp_all
  from 1 2 show ?thesis by (simp add: strip_def)
qed

lemma strip_digits_ends:
  "s \<noteq> [] \<Longrightarrow> is_digit (hd s) \<Longrightarrow> is_digit (last s) \<Longrightarrow> strip s = s"
  by (simp add: strip_plain is_digit_plain)

lemma strip_str_nat: "strip (str_nat n) = str_nat n"
proof (rule strip_digits_ends)
  show "str_nat n \<noteq> []" by (rule str_nat_nonempty)
  show "is_digit (hd (str_nat n))"
    by (rule str_nat_digits [of _ n]) (simp add: str_nat_nonempty)
  show "is_digit (last (str_nat n))"
    by (rule str_nat_digits [of _ n]) (simp add: str_nat_nonempty)
qed

lemma int_of_str_str_nat: "int_of_str (str_nat n) = Inr (int n)"
proof -
  obtain c cs where s: "str_nat n = c # cs"
    using str_nat_nonempty [of n] by (cases "str_nat n") auto
  then have "is_digit c" using str_nat_digits [of c n] by simp
  then have ne: "c \<noteq> CHR ''-''" "c \<noteq> CHR ''+''" using is_digit_plain by blast+
  have p: "parse_decimal (c # cs) = Some n" using parse_decimal_str_nat [of n] s by simp
  have st: "strip (c # cs) = c # cs" using strip_str_nat [of n] s by simp
  show ?thesis
    unfolding int_of_str_def s st using ne p by simp
qed

lemma split_on_none: "sep \<notin> set x \<Longrightarrow> split_on sep x = [x]"
proof -
  assume "sep \<notin> set x"
  then have d: "dropWhile (\<lambda>c. c \<noteq> sep) x = []"
    by (auto simp: dropWhile_eq_Nil_conv)
  show ?thesis by (subst split_on.simps) (simp only: d list.case)
qed

lemma split_on_first:
  "sep \<notin> set x \<Longrightarrow> split_on sep (x @ sep # r) = x # split_on sep r"
proof -
  assume a: "sep \<notin> set x"
  then have al: "\<forall>c \<in> set x. c \<noteq> sep" by auto
  have d: "dropWhile (\<lambda>c. c \<noteq> sep) (x @ sep # r) = sep # r"
    using al by (induction x) simp_all
  have t: "takeWhile (\<lambda>c. c \<noteq> sep) (x @ sep # r) = x"
    using al by (induction x) simp_all
  show ?thesis by (subst split_on.simps) (simp only: d t list.case)
qed

lemma split_on_join:
  "xs \<noteq> [] \<Longrightarrow> \<forall>x \<in> set xs. sep \<notin> set x \<Longrightarrow> split_on sep (join [sep] xs) = xs"
proof (induction xs)
  case Nil
  then show ?case by simp
next
  case (Cons x xs)
  show ?case
  proof (cases xs)
    case Nil
    with Cons.prems show ?thesis by (simp add: split_on_none)
  next
    case (Cons y ys)
    with Cons.prems Cons.IH have "split_on sep (join [sep] xs) = xs" by simp
    moreover have "sep \<notin> set x" using Cons.prems by simp
    ultimately show ?thesis using Cons by (simp add: split_on_first)
  qed
qed

lemma range_has_dash: "CHR ''-'' \<in> set (render_item (Range a b))"
  by simp

lemma str_nat_no_dash: "CHR ''-'' \<notin> set (str_nat n)"
  using str_nat_digits [of "CHR ''-''" n] is_digit_plain by blast

lemma str_nat_no_comma: "CHR '','' \<notin> set (str_nat n)"
  using str_nat_digits [of "CHR '',''" n] is_digit_plain by blast

lemma render_item_no_comma: "CHR '','' \<notin> set (render_item it)"
  by (cases it) (simp_all add: str_nat_no_comma)

lemma render_item_nonempty: "render_item it \<noteq> []"
  by (cases it) (simp_all add: str_nat_nonempty)

lemma strip_render_item: "strip (render_item it) = render_item it"
proof (cases it)
  case (Single n)
  then show ?thesis by (simp add: strip_str_nat)
next
  case (Range a b)
  have h: "is_digit (hd (str_nat a))"
    by (rule str_nat_digits [of _ a]) (simp add: str_nat_nonempty)
  have l: "is_digit (last (str_nat b))"
    by (rule str_nat_digits [of _ b]) (simp add: str_nat_nonempty)
  show ?thesis
    unfolding Range render_item.simps
    by (rule strip_digits_ends) (simp_all add: str_nat_nonempty h l)
qed

lemma split_once_range:
  "split_once CHR ''-'' (str_nat a @ ''-'' @ str_nat b) = (str_nat a, str_nat b)"
proof -
  have al: "\<forall>c \<in> set (str_nat a). c \<noteq> CHR ''-''" using str_nat_no_dash [of a] by auto
  have d: "dropWhile (\<lambda>c. c \<noteq> CHR ''-'') (str_nat a @ CHR ''-'' # str_nat b) = CHR ''-'' # str_nat b"
    using al by (induction "str_nat a") simp_all
  have t: "takeWhile (\<lambda>c. c \<noteq> CHR ''-'') (str_nat a @ CHR ''-'' # str_nat b) = str_nat a"
    using al by (induction "str_nat a") simp_all
  show ?thesis using d t by (simp add: split_once_def)
qed

lemma parse_part_render: "parse_part (render_item it) = Inr (ports_of it)"
proof (cases it)
  case (Single n)
  then show ?thesis by (simp add: parse_part_def str_nat_no_dash int_of_str_str_nat)
next
  case (Range a b)
  have "parse_part (str_nat a @ ''-'' @ str_nat b) = Inr [int a..int b]"
    unfolding parse_part_def using split_once_range [of a b]
    by (simp add: int_of_str_str_nat)
  with Range show ?thesis by simp
qed

lemma parse_loop_render:
  "parse_loop (map render_item items) acc = Inr (acc @ concat (map ports_of items))"
  by (induction items arbitrary: acc) (simp_all add: parse_part_render)

lemma set_ports_of: "set (ports_of it) = denoted it"
  by (cases it) simp_all

lemma parts_of_render:
  "map strip (filter (\<lambda>p. strip p \<noteq> []) (split_on CHR '','' (render_ports items))) =
     map render_item items"
proof (cases "items = []")
  case True
  then show ?thesis
    by (simp add: render_ports_def split_on.simps [of _ "[]"] strip_def)
next
  case False
  have "split_on CHR '','' (join '','' (map render_item items)) = map render_item items"
    by (rule split_on_join) (use False in \<open>auto simp: render_item_no_comma\<close>)
  then show ?thesis
    by (simp add: render_ports_def filter_map o_def strip_render_item render_item_nonempty)
qed

lemma parse_ports_render:
  "parse_ports (render_ports items) = Inr (sorted_list_of_set (\<Union>it \<in> set items. denoted it))"
proof -
  have "set (concat (map ports_of items)) = (\<Union>it \<in> set items. denoted it)"
    by (simp add: set_ports_of)
  then have "sort (remdups (concat (map ports_of items))) =
      sorted_list_of_set (\<Union>it \<in> set items. denoted it)"
    by (metis sorted_list_of_set_sort_remdups)
  then show ?thesis
    by (simp add: parse_ports_def parts_of_render parse_loop_render)
qed

lemma parse_ports_sorted:
  "parse_ports s = Inr ps \<Longrightarrow> sorted ps \<and> distinct ps"
  by (auto simp: parse_ports_def Let_def split: sum.splits)


text \<open>
  C8. For every port list written as single numbers and inclusive ranges joined by commas,
  \<open>parse_ports\<close> returns exactly the denoted ports, without duplicates and in ascending
  order; whatever the input, a list it returns is sorted and free of duplicates; and
  \<open>parse_ports("20-22,80") = [20, 21, 22, 80]\<close>, \<open>parse_ports("80,80,22") = [22, 80]\<close>.
\<close>

theorem parse_ports_sorted_dedup:
  "(\<exists>ps. parse_ports (render_ports items) = Inr ps \<and> sorted ps \<and> distinct ps \<and>
         set ps = (\<Union>it \<in> set items. denoted it)) \<and>
   (parse_ports s = Inr qs \<longrightarrow> sorted qs \<and> distinct qs) \<and>
   parse_ports ''20-22,80'' = Inr [20, 21, 22, 80] \<and>
   parse_ports ''80,80,22'' = Inr [22, 80]"
proof -
  have fin: "finite (\<Union>it \<in> set items. denoted it)"
  proof (rule finite_UN_I)
    show "finite (set items)" by simp
  next
    fix it show "finite (denoted it)" by (cases it) simp_all
  qed
  have 1: "\<exists>ps. parse_ports (render_ports items) = Inr ps \<and> sorted ps \<and> distinct ps \<and>
         set ps = (\<Union>it \<in> set items. denoted it)"
    using parse_ports_render [of items] fin by simp
  have 2: "parse_ports s = Inr qs \<longrightarrow> sorted qs \<and> distinct qs"
    using parse_ports_sorted by blast
  have 3: "parse_ports ''20-22,80'' = Inr [20, 21, 22, 80]"
    by code_simp
  have 4: "parse_ports ''80,80,22'' = Inr [22, 80]"
    by code_simp
  from 1 2 3 4 show ?thesis by blast
qed

theorem parse_ports_sorted_dedup_witness:
  "render_ports [Range 20 22, Single 80] = ''20-22,80'' \<and>
   (\<exists>ps. parse_ports ''20-22,80'' = Inr ps \<and> sorted ps \<and> distinct ps \<and>
         set ps = {20..22} \<union> {80}) \<and>
   parse_ports ''80,80,22'' = Inr [22, 80] \<and> sorted [22, 80 :: int] \<and> distinct [22, 80 :: int]"
proof -
  have r: "render_ports [Range 20 22, Single 80] = ''20-22,80''"
    by code_simp
  have e: "{20, 21, 22, 80} = insert 80 {20..22 :: int}"
    by auto
  from parse_ports_sorted_dedup [of "[Range 20 22, Single 80]" "''80,80,22''" "[22, 80]"]
  show ?thesis unfolding r by (simp add: e)
qed

subsection \<open>Target expander\<close>



















lemma expand_loop_eq:
  "expand_loop mh idx hs res =
     res @ map str_address (case mh of None \<Rightarrow> hs | Some k \<Rightarrow> take (nat (k - idx)) hs)"
proof (induction hs arbitrary: idx res)
  case Nil
  then show ?case by (simp split: option.splits)
next
  case (Cons h hs)
  show ?case
  proof (cases mh)
    case None
    then show ?thesis using Cons.IH [of "idx + 1" "res @ [str_address h]"] by simp
  next
    case (Some k)
    show ?thesis
    proof (cases "idx \<ge> k")
      case True
      with Some show ?thesis by simp
    next
      case False
      then have "nat (k - idx) = Suc (nat (k - (idx + 1)))" by simp
      with False Some Cons.IH [of "idx + 1" "res @ [str_address h]"] show ?thesis
        by simp
    qed
  qed
qed



lemma ALL_ONES_mask: "ALL_ONES v = mask (max_prefixlen v)"
  by (simp add: ALL_ONES_def mask_eq_exp_minus_1)

lemma ip_int_from_prefix_mask:
  "ip_int_from_prefix v p = xor (mask (max_prefixlen v)) (mask (max_prefixlen v - p))"
  by (simp add: ip_int_from_prefix_def ALL_ONES_mask drop_bit_mask_eq)

lemma hostmask_mask: "hostmask n = mask (max_prefixlen (version n) - prefixlen n)"
  unfolding hostmask_def ip_int_from_prefix_mask ALL_ONES_mask
  by (rule bit_eqI) (auto simp: bit_simps)

lemma netmask_bounds:
  "0 \<le> ip_int_from_prefix v p \<and> ip_int_from_prefix v p \<le> (mask (max_prefixlen v) :: int)"
proof -
  have "and (mask (max_prefixlen v)) (ip_int_from_prefix v p) = ip_int_from_prefix v p"
    unfolding ip_int_from_prefix_mask by (rule bit_eqI) (auto simp: bit_simps)
  moreover have "and (mask (max_prefixlen v)) (ip_int_from_prefix v p) \<le> (mask (max_prefixlen v) :: int)"
    by simp
  moreover have "0 \<le> and (mask (max_prefixlen v) :: int) (ip_int_from_prefix v p)"
    by simp
  ultimately show ?thesis by simp
qed

lemma masked_low_bits:
  "and (and packed (ip_int_from_prefix v p)) (mask (max_prefixlen v - p)) = (0 :: int)"
  unfolding ip_int_from_prefix_mask by (rule bit_eqI) (auto simp: bit_simps)

lemma masked_bounds:
  "0 \<le> and packed (ip_int_from_prefix v p) \<and>
   and packed (ip_int_from_prefix v p) \<le> (mask (max_prefixlen v) :: int)"
  using netmask_bounds [of v p] by simp

lemma broadcast_eq:
  assumes "net_ok n"
  shows "broadcast_address n = network_address n + mask (max_prefixlen (version n) - prefixlen n)"
proof -
  from assms have na: "network_address n =
       and (address_int (given_address n)) (ip_int_from_prefix (version n) (prefixlen n))"
    by (simp add: net_ok_def)
  have "and (network_address n) (mask (max_prefixlen (version n) - prefixlen n)) = 0"
    unfolding na by (rule masked_low_bits)
  then have "network_address n + mask (max_prefixlen (version n) - prefixlen n) =
        or (network_address n) (mask (max_prefixlen (version n) - prefixlen n))"
    by (rule disjunctive_add_eq_or)
  then show ?thesis by (simp add: broadcast_address_def hostmask_mask)
qed

lemma network_bounds:
  assumes "net_ok n"
  shows "0 \<le> network_address n \<and> network_address n \<le> broadcast_address n \<and>
         broadcast_address n \<le> mask (max_prefixlen (version n))"
proof -
  let ?m = "max_prefixlen (version n)"
  from assms have na: "network_address n =
       and (address_int (given_address n)) (ip_int_from_prefix (version n) (prefixlen n))"
    by (simp add: net_ok_def)
  have 0: "0 \<le> network_address n" and u: "network_address n \<le> mask ?m"
    unfolding na using masked_bounds by blast+
  have 1: "network_address n \<le> broadcast_address n"
    using broadcast_eq [OF assms] by simp
  have "network_address n < 2 ^ ?m" using u by (simp add: mask_eq_exp_minus_1)
  moreover have "(mask (?m - prefixlen n) :: int) < 2 ^ ?m"
  proof -
    have "(mask (?m - prefixlen n) :: int) < 2 ^ (?m - prefixlen n)"
      by (simp add: mask_eq_exp_minus_1)
    also have "(2 :: int) ^ (?m - prefixlen n) \<le> 2 ^ ?m"
      by (rule power_increasing) simp_all
    finally show ?thesis .
  qed
  ultimately have "or (network_address n) (mask (?m - prefixlen n)) < 2 ^ ?m"
    using 0 by (intro OR_upper)
  then have 2: "broadcast_address n \<le> mask ?m"
    by (simp add: broadcast_address_def hostmask_mask mask_eq_exp_minus_1)
  from 0 1 2 show ?thesis by simp
qed

lemma make_network_ok:
  assumes "make_network v False packed obj plen = Inr n"
    and "plen \<le> max_prefixlen v" and "address_version obj = v" and "address_int obj = packed"
    and "0 \<le> packed" and "packed \<le> mask (max_prefixlen v)"
  shows "net_ok n"
  using assms by (auto simp: make_network_def net_ok_def Let_def split: if_splits)

lemma dec_value_nonneg_aux: "0 \<le> a \<Longrightarrow> 0 \<le> foldl (\<lambda>a c. a * 10 + int (digit_val c)) a s"
  by (induction s arbitrary: a) simp_all

lemma parse_octet_bounds: "parse_octet s = Inr v \<Longrightarrow> 0 \<le> v \<and> v \<le> 255"
  using dec_value_nonneg_aux [of 0 s]
  by (auto simp: parse_octet_def dec_value_def split: if_splits)

lemma map_raise_all:
  "map_raise f xs = Inr ys \<Longrightarrow> (\<And>x y. f x = Inr y \<Longrightarrow> P y) \<Longrightarrow>
     length ys = length xs \<and> (\<forall>y \<in> set ys. P y)"
proof (induction xs arbitrary: ys)
  case Nil
  then show ?case by simp
next
  case (Cons x xs)
  from Cons.prems(1) obtain y ys' where y: "f x = Inr y" and r: "map_raise f xs = Inr ys'"
    and e: "ys = y # ys'"
    by (auto split: sum.splits)
  from Cons.IH [OF r Cons.prems(2)] Cons.prems(2) [OF y] e show ?case by simp
qed

lemma from_bytes4_bounds:
  assumes "length bs = 4" and "\<forall>b \<in> set bs. 0 \<le> b \<and> b \<le> 255"
  shows "0 \<le> from_bytes bs \<and> from_bytes bs \<le> 4294967295"
proof -
  from assms(1) obtain a b c d where bs: "bs = [a, b, c, d]"
    by (cases bs; cases "tl bs"; cases "tl (tl bs)"; cases "tl (tl (tl bs))") auto
  with assms(2) show ?thesis by (simp add: from_bytes_def)
qed

lemma ip4_int_from_string_bounds:
  "ip4_int_from_string s = Inr n \<Longrightarrow> 0 \<le> n \<and> n \<le> mask 32"
proof -
  assume a: "ip4_int_from_string s = Inr n"
  then obtain bs where l: "length (split_on CHR ''.'' s) = 4"
    and m: "map_raise parse_octet (split_on CHR ''.'' s) = Inr bs" and n: "n = from_bytes bs"
    by (auto simp: ip4_int_from_string_def Let_def split: if_splits sum.splits)
  from map_raise_all [OF m, of "\<lambda>v. 0 \<le> v \<and> v \<le> 255"] parse_octet_bounds l
  have "length bs = 4" "\<forall>b \<in> set bs. 0 \<le> b \<and> b \<le> 255" by auto
  from from_bytes4_bounds [OF this] n show ?thesis by (simp add: mask_eq_exp_minus_1)
qed

lemma IPv4Address_of_str_bounds:
  "IPv4Address_of_str s = Inr n \<Longrightarrow> 0 \<le> n \<and> n \<le> mask 32"
  by (auto simp: IPv4Address_of_str_def dest: ip4_int_from_string_bounds split: if_splits)

lemma hex_value_bound_aux:
  "0 \<le> a \<Longrightarrow> list_all is_hex_digit s \<Longrightarrow>
     0 \<le> foldl (\<lambda>a c. a * 16 + int (hex_val c)) a s \<and>
     foldl (\<lambda>a c. a * 16 + int (hex_val c)) a s < (a + 1) * 16 ^ length s"
proof (induction s arbitrary: a)
  case Nil
  then show ?case by simp
next
  case (Cons c s)
  from Cons.prems(2) have hc: "hex_val c < 16"
    by (auto simp: is_hex_digit_def hex_val_def is_digit_def)
  from Cons.prems have 0: "0 \<le> a * 16 + int (hex_val c)" and all: "list_all is_hex_digit s"
    by simp_all
  from Cons.IH [OF 0 all] have
    lo: "0 \<le> foldl (\<lambda>a c. a * 16 + int (hex_val c)) (a * 16 + int (hex_val c)) s" and
    hi: "foldl (\<lambda>a c. a * 16 + int (hex_val c)) (a * 16 + int (hex_val c)) s
           < (a * 16 + int (hex_val c) + 1) * 16 ^ length s"
    by simp_all
  have "a * 16 + int (hex_val c) + 1 \<le> (a + 1) * 16" using hc by simp
  then have "(a * 16 + int (hex_val c) + 1) * 16 ^ length s \<le> (a + 1) * 16 * 16 ^ length s"
    by (rule mult_right_mono) simp
  with hi have "foldl (\<lambda>a c. a * 16 + int (hex_val c)) (a * 16 + int (hex_val c)) s
           < (a + 1) * 16 * 16 ^ length s"
    by (rule less_le_trans)
  then have "foldl (\<lambda>a c. a * 16 + int (hex_val c)) (a * 16 + int (hex_val c)) s
           < (a + 1) * 16 ^ length (c # s)"
    by (simp add: algebra_simps)
  with lo show ?case by simp
qed

lemma parse_hextet_bounds: "parse_hextet s = Inr h \<Longrightarrow> 0 \<le> h \<and> h < 2 ^ 16"
proof -
  assume a: "parse_hextet s = Inr h"
  then have all: "list_all is_hex_digit s" and len: "length s \<le> 4" and h: "h = hex_value s"
    by (auto simp: parse_hextet_def split: if_splits)
  from hex_value_bound_aux [of 0 s, OF _ all] have "0 \<le> h" "h < 16 ^ length s"
    by (simp_all add: h hex_value_def)
  moreover have "(16 :: int) ^ length s \<le> 16 ^ 4" using len by (intro power_increasing) simp_all
  ultimately show ?thesis by simp
qed

lemma shift_in_bounds:
  "shift_in a ps = Inr b \<Longrightarrow> 0 \<le> a \<Longrightarrow> a < 2 ^ k \<Longrightarrow>
     0 \<le> b \<and> b < 2 ^ (k + 16 * length ps)"
proof (induction ps arbitrary: a k)
  case Nil
  then show ?case by simp
next
  case (Cons p ps)
  from Cons.prems(1) obtain h where h: "parse_hextet p = Inr h"
    and r: "shift_in (or (push_bit 16 a) h) ps = Inr b"
    by (auto split: sum.splits)
  from parse_hextet_bounds [OF h] have h0: "0 \<le> h" and h1: "h < 2 ^ 16" by simp_all
  have p0: "0 \<le> push_bit 16 a" using Cons.prems(2) by simp
  have "push_bit 16 a < 2 ^ (k + 16)"
    using Cons.prems(3) by (simp add: push_bit_eq_mult power_add)
  moreover have "h < 2 ^ (k + 16)"
  proof -
    have "(2 :: int) ^ 16 \<le> 2 ^ (k + 16)" by (intro power_increasing) simp_all
    with h1 show ?thesis by linarith
  qed
  ultimately have u: "or (push_bit 16 a) h < 2 ^ (k + 16)" using p0 by (intro OR_upper)
  have l: "0 \<le> or (push_bit 16 a) h" using p0 h0 by simp
  from Cons.IH [OF r l u] show ?case by (simp add: add.assoc add.commute)
qed

lemma pow_le_128: "k \<le> 128 \<Longrightarrow> b < (2 :: int) ^ k \<Longrightarrow> b \<le> mask 128"
proof -
  assume "k \<le> 128" "b < 2 ^ k"
  moreover from \<open>k \<le> 128\<close> have "(2 :: int) ^ k \<le> 2 ^ 128" by (intro power_increasing) simp_all
  ultimately have "b < 2 ^ 128" by linarith
  then show ?thesis by (simp add: mask_eq_exp_minus_1)
qed

lemma count_parts_sum: "count_parts ps = Inr (hi, lo, sk) \<Longrightarrow> hi + lo + sk \<le> 8"
  unfolding count_parts_def Let_def
  by (auto split: if_splits sum.splits option.splits)

lemma assemble_parts_bounds:
  assumes "assemble_parts ps hi lo sk = Inr n" and "hi + lo + sk \<le> 8"
  shows "0 \<le> n \<and> n \<le> mask 128"
proof -
  from assms(1) obtain a where a: "shift_in 0 (take hi ps) = Inr a"
    and n: "shift_in (push_bit (16 * sk) a) (drop (length ps - lo) ps) = Inr n"
    by (auto simp: assemble_parts_def split: sum.splits)
  let ?h = "length (take hi ps)" and ?l = "length (drop (length ps - lo) ps)"
  from shift_in_bounds [OF a, of 0] have a0: "0 \<le> a" and a1: "a < 2 ^ (16 * ?h)" by simp_all
  have p0: "0 \<le> push_bit (16 * sk) a" using a0 by simp
  have p1: "push_bit (16 * sk) a < 2 ^ (16 * ?h + 16 * sk)"
    using a1 by (simp add: push_bit_eq_mult power_add)
  from shift_in_bounds [OF n p0 p1] have n0: "0 \<le> n"
    and n1: "n < 2 ^ (16 * ?h + 16 * sk + 16 * ?l)" by simp_all
  have "?h \<le> hi" "?l \<le> lo" by simp_all
  with assms(2) have "16 * ?h + 16 * sk + 16 * ?l \<le> 128" by simp
  from pow_le_128 [OF this n1] n0 show ?thesis by simp
qed

lemma ip6_int_from_string_bounds:
  assumes "ip6_int_from_string s = Inr n"
  shows "0 \<le> n \<and> n \<le> mask 128"
proof -
  from assms obtain ps hi lo sk where c: "count_parts ps = Inr (hi, lo, sk)"
    and a: "assemble_parts ps hi lo sk = Inr n"
    unfolding ip6_int_from_string_def Let_def
    by (auto split: if_splits sum.splits prod.splits)
  from assemble_parts_bounds [OF a count_parts_sum [OF c]] show ?thesis .
qed

lemma IPv6Address_of_str_bounds:
  "IPv6Address_of_str s = Inr (n, sc) \<Longrightarrow> 0 \<le> n \<and> n \<le> mask 128"
  by (auto simp: IPv6Address_of_str_def dest: ip6_int_from_string_bounds
      split: if_splits sum.splits prod.splits)

lemma make_netmask_bound: "make_netmask v arg = Inr p \<Longrightarrow> p \<le> max_prefixlen v"
  by (auto simp: make_netmask_def prefix_from_prefix_string_def prefix_from_ip_string_def
      prefix_from_ip_int_def Let_def max_prefixlen_def
      split: option.splits ip_version.splits sum.splits if_splits)

lemma IPv4Network_ok: "IPv4Network a False = Inr n \<Longrightarrow> net_ok n \<and> version n = V4"
proof -
  assume a: "IPv4Network a False = Inr n"
  then obtain addr msk packed plen where
    p: "IPv4Address_of_str addr = Inr packed" and m: "make_netmask V4 msk = Inr plen"
    and n: "make_network V4 False packed (IPv4Address packed) plen = Inr n"
    by (auto simp: IPv4Network_def split: sum.splits prod.splits)
  from IPv4Address_of_str_bounds [OF p] have b: "0 \<le> packed" "packed \<le> mask (max_prefixlen V4)"
    by (simp_all add: max_prefixlen_def)
  from make_network_ok [OF n make_netmask_bound [OF m] _ _ b] have "net_ok n" by simp
  moreover from n have "version n = V4" by (auto simp: make_network_def Let_def split: if_splits)
  ultimately show ?thesis by simp
qed

lemma IPv6Network_ok: "IPv6Network a False = Inr n \<Longrightarrow> net_ok n \<and> version n = V6"
proof -
  assume a: "IPv6Network a False = Inr n"
  then obtain addr msk packed sc plen where
    p: "IPv6Address_of_str addr = Inr (packed, sc)" and m: "make_netmask V6 msk = Inr plen"
    and n: "make_network V6 False packed (IPv6Address packed sc) plen = Inr n"
    by (auto simp: IPv6Network_def split: sum.splits prod.splits)
  from IPv6Address_of_str_bounds [OF p] have b: "0 \<le> packed" "packed \<le> mask (max_prefixlen V6)"
    by (simp_all add: max_prefixlen_def)
  from make_network_ok [OF n make_netmask_bound [OF m] _ _ b] have "net_ok n" by simp
  moreover from n have "version n = V6" by (auto simp: make_network_def Let_def split: if_splits)
  ultimately show ?thesis by simp
qed

lemma ip_network_ok: "ip_network cidr False = Inr n \<Longrightarrow> net_ok n"
  by (auto simp: ip_network_def dest: IPv4Network_ok IPv6Network_ok
      split: sum.splits ip_error.splits)

lemma str_nat_inj: "str_nat a = str_nat b \<Longrightarrow> a = b"
proof -
  assume e: "str_nat a = str_nat b"
  have "Some a = parse_decimal (str_nat a)" by (simp only: parse_decimal_str_nat)
  also have "\<dots> = parse_decimal (str_nat b)" by (simp only: e)
  also have "\<dots> = Some b" by (simp only: parse_decimal_str_nat)
  finally show ?thesis by simp
qed

lemma str_nat_no_dot: "CHR ''.'' \<notin> set (str_nat n)"
  using str_nat_digits [of "CHR ''.''" n] by (auto simp: is_digit_def)

lemma digits_inj:
  fixes a b B :: int
  assumes "0 \<le> B"
  shows "(\<forall>i < k. a div B ^ i mod B = b div B ^ i mod B) \<Longrightarrow> a div B ^ k = b div B ^ k \<Longrightarrow> a = b"
proof (induction k)
  case 0
  then show ?case by simp
next
  case (Suc k)
  have da: "a div B ^ Suc k = a div B ^ k div B"
    using zdiv_zmult2_eq [OF assms, of a "B ^ k"] by (simp add: mult.commute)
  have db: "b div B ^ Suc k = b div B ^ k div B"
    using zdiv_zmult2_eq [OF assms, of b "B ^ k"] by (simp add: mult.commute)
  from Suc.prems(2) da db have d: "a div B ^ k div B = b div B ^ k div B" by simp
  from Suc.prems(1) have m: "a div B ^ k mod B = b div B ^ k mod B" by simp
  have "a div B ^ k = b div B ^ k"
    using d m by (metis div_mult_mod_eq)
  moreover from Suc.prems(1) have "\<forall>i < k. a div B ^ i mod B = b div B ^ i mod B" by simp
  ultimately show ?case using Suc.IH by blast
qed

lemma to_bytes4_inj:
  assumes "to_bytes4 a = to_bytes4 b" and "0 \<le> a" "a \<le> mask 32" "0 \<le> b" "b \<le> mask 32"
  shows "a = b"
proof -
  have nn: "\<And>x :: int. 0 \<le> x mod 256" by simp
  from assms(1) have n:
    "nat (a div 16777216 mod 256) = nat (b div 16777216 mod 256)"
    "nat (a div 65536 mod 256) = nat (b div 65536 mod 256)"
    "nat (a div 256 mod 256) = nat (b div 256 mod 256)"
    "nat (a mod 256) = nat (b mod 256)"
    unfolding to_bytes4_def by simp_all
  have e3: "a div 16777216 mod 256 = b div 16777216 mod 256"
    using n(1) nn eq_nat_nat_iff by blast
  have e2: "a div 65536 mod 256 = b div 65536 mod 256"
    using n(2) nn eq_nat_nat_iff by blast
  have e1: "a div 256 mod 256 = b div 256 mod 256"
    using n(3) nn eq_nat_nat_iff by blast
  have e0: "a mod 256 = b mod 256"
    using n(4) nn eq_nat_nat_iff by blast
  have p: "(256 :: int) ^ 0 = 1" "(256 :: int) ^ 1 = 256" "(256 :: int) ^ 2 = 65536"
    "(256 :: int) ^ 3 = 16777216" "(256 :: int) ^ 4 = 4294967296"
    by simp_all
  have all: "\<forall>i < 4. a div 256 ^ i mod 256 = b div 256 ^ i mod 256"
  proof (intro allI impI)
    fix i :: nat assume "i < 4"
    then consider "i = 0" | "i = 1" | "i = 2" | "i = 3" by linarith
    then show "a div 256 ^ i mod 256 = b div 256 ^ i mod 256"
    proof cases
      case 1 then show ?thesis using e0 by simp
    next
      case 2 then show ?thesis using e1 by simp
    next
      case 3 then show ?thesis using e2 by (simp only: p)
    next
      case 4 then show ?thesis using e3 by (simp only: p)
    qed
  qed
  from assms(2,3) have "a div 4294967296 = 0" by (simp add: mask_eq_exp_minus_1)
  moreover from assms(4,5) have "b div 4294967296 = 0" by (simp add: mask_eq_exp_minus_1)
  ultimately have top: "a div 256 ^ 4 = b div 256 ^ 4" by (simp only: p)
  have "(0 :: int) \<le> 256" by simp
  from digits_inj [OF this all top] show ?thesis .
qed

lemma inj_str_nat: "inj str_nat"
  by (rule injI) (rule str_nat_inj)

lemma to_bytes4_length: "length (to_bytes4 a) = 4"
  by (simp add: to_bytes4_def)

lemma split_ip4: "split_on CHR ''.'' (string_from_ip4_int a) = map str_nat (to_bytes4 a)"
  unfolding string_from_ip4_int_def
proof (rule split_on_join)
  show "map str_nat (to_bytes4 a) \<noteq> []"
    using to_bytes4_length [of a] by (cases "to_bytes4 a") simp_all
  show "\<forall>x \<in> set (map str_nat (to_bytes4 a)). CHR ''.'' \<notin> set x"
    using str_nat_no_dot by auto
qed

lemma string_from_ip4_int_inj:
  assumes "string_from_ip4_int a = string_from_ip4_int b"
    and "0 \<le> a" "a \<le> mask 32" "0 \<le> b" "b \<le> mask 32"
  shows "a = b"
proof -
  have "map str_nat (to_bytes4 a) = split_on CHR ''.'' (string_from_ip4_int a)"
    by (simp only: split_ip4)
  also have "\<dots> = split_on CHR ''.'' (string_from_ip4_int b)"
    by (simp only: assms(1))
  also have "\<dots> = map str_nat (to_bytes4 b)"
    by (simp only: split_ip4)
  finally have "to_bytes4 a = to_bytes4 b"
    by (simp only: inj_map_eq_map [OF inj_str_nat])
  from to_bytes4_inj [OF this assms(2-5)] show ?thesis .
qed

lemma hex_val_hex_char: "d < 16 \<Longrightarrow> hex_val (hex_char d) = d"
  by (cases "d < 10") (simp_all add: hex_val_def hex_char_def is_digit_def)

lemma hex_char_code: "d < 16 \<Longrightarrow> (of_char (hex_char d) :: nat) = (if d < 10 then 48 + d else 87 + d)"
  by (simp add: hex_char_def)

lemma hex_char_no_colon: "d < 16 \<Longrightarrow> hex_char d \<noteq> CHR '':''"
proof
  assume d: "d < 16" and e: "hex_char d = CHR '':''"
  have "(of_char (hex_char d) :: nat) = 58" by (simp only: e) simp
  with hex_char_code [OF d] show False by (simp split: if_splits)
qed

lemma hex_nat_chars: "c \<in> set (hex_nat n) \<Longrightarrow> \<exists>d < 16. c = hex_char d"
proof (induction n arbitrary: c rule: hex_nat.induct)
  case (1 n)
  show ?case
  proof (cases "n < 16")
    case True
    with "1.prems" show ?thesis by (auto simp: hex_nat.simps [of n])
  next
    case False
    with "1.prems" have "c \<in> set (hex_nat (n div 16)) \<or> c = hex_char (n mod 16)"
      by (auto simp: hex_nat.simps [of n])
    then show ?thesis
    proof
      assume "c \<in> set (hex_nat (n div 16))"
      with "1.IH" False show ?thesis by blast
    next
      assume "c = hex_char (n mod 16)"
      moreover have "n mod 16 < 16" by simp
      ultimately show ?thesis by blast
    qed
  qed
qed

lemma hex_nat_no_colon: "CHR '':'' \<notin> set (hex_nat n)"
proof
  assume "CHR '':'' \<in> set (hex_nat n)"
  from hex_nat_chars [OF this] obtain d where d: "d < 16" and e: "CHR '':'' = hex_char d"
    by (elim exE conjE)
  from hex_char_no_colon [OF d] e show False by (simp only:) simp
qed

lemma hex_nat_nonempty: "hex_nat n \<noteq> []"
  by (simp add: hex_nat.simps [of n])

lemma hex_value_snoc: "hex_value (s @ [c]) = hex_value s * 16 + int (hex_val c)"
  by (simp add: hex_value_def)

lemma hex_value_hex_nat: "hex_value (hex_nat n) = int n"
proof (induction n rule: hex_nat.induct)
  case (1 n)
  show ?case
  proof (cases "n < 16")
    case True
    then have "hex_nat n = [hex_char n]" by (simp add: hex_nat.simps [of n])
    then show ?thesis
      by (simp add: hex_value_def hex_val_hex_char [OF True])
  next
    case False
    have m: "n mod 16 < 16" by simp
    have "hex_value (hex_nat n) = hex_value (hex_nat (n div 16) @ [hex_char (n mod 16)])"
      using False by (simp add: hex_nat.simps [of n])
    also have "\<dots> = hex_value (hex_nat (n div 16)) * 16 + int (hex_val (hex_char (n mod 16)))"
      by (rule hex_value_snoc)
    also have "\<dots> = int (n div 16) * 16 + int (n mod 16)"
      using "1.IH" [OF False] by (simp only: hex_val_hex_char [OF m])
    also have "\<dots> = int (n div 16 * 16 + n mod 16)"
      by (simp only: of_nat_add of_nat_mult of_nat_numeral)
    also have "\<dots> = int n"
      by simp
    finally show ?thesis .
  qed
qed

lemma hex_nat_inj: "hex_nat a = hex_nat b \<Longrightarrow> a = b"
proof -
  assume e: "hex_nat a = hex_nat b"
  have "int a = hex_value (hex_nat a)" by (simp only: hex_value_hex_nat)
  also have "\<dots> = hex_value (hex_nat b)" by (simp only: e)
  also have "\<dots> = int b" by (simp only: hex_value_hex_nat)
  finally show ?thesis by simp
qed

lemma inj_hex_nat: "inj hex_nat"
  by (rule injI) (rule hex_nat_inj)

lemma pow_65536: "(2 :: int) ^ (16 * j) = 65536 ^ j"
proof -
  have "(2 :: int) ^ (16 * j) = (2 ^ 16) ^ j" by (rule power_mult)
  also have "(2 :: int) ^ 16 = 65536" by simp
  finally show ?thesis .
qed

lemma hextets_of_inj:
  assumes "hextets_of a = hextets_of b" and "0 \<le> a" "a \<le> mask 128" "0 \<le> b" "b \<le> mask 128"
  shows "a = b"
proof -
  have nn: "\<And>x :: int. 0 \<le> x mod 65536" by simp
  from assms(1) have m: "\<forall>i \<in> set [0 ..< 8].
      nat (a div 2 ^ (16 * (7 - i)) mod 65536) = nat (b div 2 ^ (16 * (7 - i)) mod 65536)"
    unfolding hextets_of_def by (simp only: map_eq_conv)
  have all: "\<forall>j < 8. a div 65536 ^ j mod 65536 = b div 65536 ^ j mod 65536"
  proof (intro allI impI)
    fix j :: nat assume j: "j < 8"
    then have "7 - j \<in> set [0 ..< 8]" by simp
    with m have "nat (a div 2 ^ (16 * (7 - (7 - j))) mod 65536) =
                 nat (b div 2 ^ (16 * (7 - (7 - j))) mod 65536)" by blast
    moreover from j have "7 - (7 - j) = j" by simp
    ultimately have "nat (a div 2 ^ (16 * j) mod 65536) = nat (b div 2 ^ (16 * j) mod 65536)"
      by (simp only:)
    then have "a div 2 ^ (16 * j) mod 65536 = b div 2 ^ (16 * j) mod 65536"
      using nn eq_nat_nat_iff by blast
    then show "a div 65536 ^ j mod 65536 = b div 65536 ^ j mod 65536"
      by (simp only: pow_65536)
  qed
  have p: "(65536 :: int) ^ 8 = 2 ^ 128" using pow_65536 [of 8] by simp
  from assms(2,3) have "a < 2 ^ 128" by (simp add: mask_eq_exp_minus_1)
  with assms(2) have "a div 2 ^ 128 = 0" by (rule div_pos_pos_trivial)
  moreover from assms(4,5) have "b < 2 ^ 128" by (simp add: mask_eq_exp_minus_1)
  with assms(4) have "b div 2 ^ 128 = 0" by (rule div_pos_pos_trivial)
  ultimately have top: "a div 65536 ^ 8 = b div 65536 ^ 8" by (simp only: p)
  have "(0 :: int) \<le> 65536" by simp
  from digits_inj [OF this all top] show ?thesis .
qed

lemma restore_plain: "\<forall>x \<in> set H. x \<noteq> [] \<Longrightarrow> restore_hextets (length H) H = H"
proof -
  assume a: "\<forall>x \<in> set H. x \<noteq> []"
  then have t: "takeWhile (\<lambda>h. h \<noteq> []) H = H" by (simp add: takeWhile_eq_all_conv)
  from a have d: "dropWhile (\<lambda>h. h \<noteq> []) H = []" by (simp add: dropWhile_eq_Nil_conv)
  show ?thesis unfolding restore_hextets_def Let_def t d by simp
qed

lemma restore_shape:
  assumes A: "\<forall>x \<in> set A. x \<noteq> []" and B: "\<forall>x \<in> set B. x \<noteq> []"
  shows "restore_hextets (length A + l + length B)
           ((if A = [] then [[]] else []) @ A @ [[]] @ (if B = [] then [[]] else B)) =
         A @ replicate l ''0'' @ B"
proof -
  let ?R = "(if A = [] then [[]] else []) @ A @ [[]] @ (if B = [] then [[]] else B)"
  let ?Q = "if B = [] then [[]] else B"
  have q: "filter (\<lambda>h. h \<noteq> []) ?Q = B"
    using B by (cases "B = []") (simp_all add: filter_id_conv)
  have t: "takeWhile (\<lambda>h. h \<noteq> []) ?R = A"
  proof (cases "A = []")
    case True
    then show ?thesis by simp
  next
    case False
    have "takeWhile (\<lambda>h. h \<noteq> []) (A @ [] # ?Q) = A @ takeWhile (\<lambda>h. h \<noteq> []) ([] # ?Q)"
      using A by (intro takeWhile_append2) simp
    with False show ?thesis by simp
  qed
  have d: "filter (\<lambda>h. h \<noteq> []) (dropWhile (\<lambda>h. h \<noteq> []) ?R) = B"
  proof (cases "A = []")
    case True
    then have "dropWhile (\<lambda>h. h \<noteq> []) ?R = [] # [] # ?Q" by simp
    then show ?thesis using q by (simp only: filter.simps) simp
  next
    case False
    have "dropWhile (\<lambda>h. h \<noteq> []) (A @ [] # ?Q) = dropWhile (\<lambda>h. h \<noteq> []) ([] # ?Q)"
      using A by (intro dropWhile_append2) simp
    with False have "dropWhile (\<lambda>h. h \<noteq> []) ?R = [] # ?Q" by simp
    then show ?thesis using q by (simp only: filter.simps) simp
  qed
  show ?thesis unfolding restore_hextets_def Let_def t d by simp
qed

lemma zero_run_split:
  assumes "zero_run H s l"
  shows "H = take (nat s) H @ replicate l ''0'' @ drop (nat s + l) H"
proof -
  from assms have b: "nat s + l \<le> length H" and z: "\<forall>j < l. H ! (nat s + j) = ''0''"
    by (simp_all add: zero_run_def)
  have "take l (drop (nat s) H) = replicate l ''0''"
  proof (rule nth_equalityI)
    show "length (take l (drop (nat s) H)) = length (replicate l ''0'')" using b by simp
  next
    fix j assume "j < length (take l (drop (nat s) H))"
    then have j: "j < l" by simp
    with b z show "take l (drop (nat s) H) ! j = replicate l ''0'' ! j" by simp
  qed
  moreover have "drop (nat s) H = take l (drop (nat s) H) @ drop l (drop (nat s) H)"
    by (rule append_take_drop_id [symmetric])
  moreover have "drop l (drop (nat s) H) = drop (nat s + l) H" by (simp add: add.commute)
  moreover have "H = take (nat s) H @ drop (nat s) H"
    by (rule append_take_drop_id [symmetric])
  ultimately show ?thesis by metis
qed

lemma zero_run_extend:
  assumes "H ! i = ''0''" and "i < length H"
    and "(dl = 0 \<and> ds = - 1) \<or> (zero_run H ds dl \<and> 0 < dl \<and> nat ds + dl = i)"
  shows "zero_run H (if ds = - 1 then int i else ds) (dl + 1) \<and>
         nat (if ds = - 1 then int i else ds) + (dl + 1) = Suc i"
proof -
  from assms(3) show ?thesis
  proof
    assume a: "dl = 0 \<and> ds = - 1"
    with assms(1,2) show ?thesis by (simp add: zero_run_def)
  next
    assume a: "zero_run H ds dl \<and> 0 < dl \<and> nat ds + dl = i"
    then have ds: "0 \<le> ds" and z: "\<forall>j < dl. H ! (nat ds + j) = ''0''" and e: "nat ds + dl = i"
      by (simp_all add: zero_run_def)
    from ds have n: "ds \<noteq> - 1" by simp
    have "\<forall>j < dl + 1. H ! (nat ds + j) = ''0''"
    proof (intro allI impI)
      fix j assume "j < dl + 1"
      then have "j < dl \<or> j = dl" by arith
      then show "H ! (nat ds + j) = ''0''" using z e assms(1) by auto
    qed
    with ds e assms(2) n show ?thesis by (simp add: zero_run_def)
  qed
qed

lemma compress_scan_inv:
  "compress_scan i hs (bs, bl, ds, dl) = (s, l) \<Longrightarrow> H = pre @ hs \<Longrightarrow> length pre = i \<Longrightarrow>
     bl = 0 \<or> zero_run H bs bl \<Longrightarrow>
     (dl = 0 \<and> ds = - 1) \<or> (zero_run H ds dl \<and> 0 < dl \<and> nat ds + dl = i) \<Longrightarrow>
     l = 0 \<or> zero_run H s l"
proof (induction hs arbitrary: i bs bl ds dl pre)
  case Nil
  then show ?case by simp
next
  case (Cons h hs)
  have H: "H = (pre @ [h]) @ hs" using Cons.prems(2) by simp
  have len: "length (pre @ [h]) = Suc i" using Cons.prems(3) by simp
  have hi: "H ! i = h" using Cons.prems(2,3) by (simp add: nth_append)
  have il: "i < length H" using Cons.prems(2,3) by simp
  show ?case
  proof (cases "h = ''0''")
    case False
    with Cons.prems(1) have r: "compress_scan (Suc i) hs (bs, bl, - 1, 0) = (s, l)" by simp
    have c: "((0 :: nat) = 0 \<and> (- 1 :: int) = - 1) \<or>
        (zero_run H (- 1) 0 \<and> (0 :: nat) < 0 \<and> nat (- 1) + 0 = Suc i)" by simp
    from Cons.IH [OF r H len Cons.prems(4) c] show ?thesis .
  next
    case True
    let ?ds = "if ds = - 1 then int i else ds"
    from hi True have h0: "H ! i = ''0''" by simp
    from zero_run_extend [OF h0 il Cons.prems(5)] have
      z: "zero_run H ?ds (dl + 1)" and e: "nat ?ds + (dl + 1) = Suc i" by simp_all
    have c: "(dl + 1 = 0 \<and> ?ds = - 1) \<or>
        (zero_run H ?ds (dl + 1) \<and> 0 < dl + 1 \<and> nat ?ds + (dl + 1) = Suc i)"
      using z e by simp
    show ?thesis
    proof (cases "dl + 1 > bl")
      case True
      with \<open>h = ''0''\<close> Cons.prems(1) have
        r: "compress_scan (Suc i) hs (?ds, dl + 1, ?ds, dl + 1) = (s, l)"
        by (simp add: Let_def)
      have b: "dl + 1 = 0 \<or> zero_run H ?ds (dl + 1)" using z by simp
      from Cons.IH [OF r H len b c] show ?thesis .
    next
      case False
      with \<open>h = ''0''\<close> Cons.prems(1) have
        r: "compress_scan (Suc i) hs (bs, bl, ?ds, dl + 1) = (s, l)"
        by (simp add: Let_def)
      from Cons.IH [OF r H len Cons.prems(4) c] show ?thesis .
    qed
  qed
qed

lemma compress_scan_start:
  "compress_scan 0 H (- 1, 0, - 1, 0) = (s, l) \<Longrightarrow> l = 0 \<or> zero_run H s l"
  using compress_scan_inv [of 0 H "- 1" 0 "- 1" 0 s l H "[]"] by simp

lemma compress_restore:
  assumes ne: "\<forall>x \<in> set H. x \<noteq> []"
  shows "restore_hextets (length H) (compress_hextets H) = H"
proof -
  obtain s l where sl: "compress_scan 0 H (- 1, 0, - 1, 0) = (s, l)"
    by (cases "compress_scan 0 H (- 1, 0, - 1, 0)") auto
  show ?thesis
  proof (cases "l > 1")
    case False
    with sl have "compress_hextets H = H" by (simp add: compress_hextets_def)
    with restore_plain [OF ne] show ?thesis by simp
  next
    case True
    with compress_scan_start [OF sl] have z: "zero_run H s l" by auto
    then have b: "nat s + l \<le> length H" by (simp add: zero_run_def)
    let ?A = "take (nat s) H" and ?B = "drop (nat s + l) H"
    have A: "\<forall>x \<in> set ?A. x \<noteq> []" using ne by (meson in_set_takeD)
    have B: "\<forall>x \<in> set ?B. x \<noteq> []" using ne by (meson in_set_dropD)
    have a0: "?A = [] \<longleftrightarrow> nat s = 0" using b True by (cases H) auto
    have b0: "?B = [] \<longleftrightarrow> nat s + l = length H" using b by auto
    have t1: "take (nat s) (H @ [[]]) = ?A" using b True by simp
    have d1: "nat s + l = length H \<Longrightarrow> drop (nat s + l) (H @ [[]]) = [[]]" by simp
    have shape: "compress_hextets H =
        (if ?A = [] then [[]] else []) @ ?A @ [[]] @ (if ?B = [] then [[]] else ?B)"
    proof (cases "nat s + l = length H")
      case e: True
      then have Be: "?B = []" using b0 by simp
      show ?thesis
        unfolding compress_hextets_def sl using True e d1 [OF e] t1 a0 Be
        by (simp add: Let_def) linarith
    next
      case e: False
      then have Bn: "?B \<noteq> []" using b0 by simp
      show ?thesis
        unfolding compress_hextets_def sl using True e a0 Bn
        by (simp add: Let_def)
    qed
    have len: "length H = length ?A + l + length ?B" using b by simp
    have "restore_hextets (length H) (compress_hextets H) =
          restore_hextets (length ?A + l + length ?B)
           ((if ?A = [] then [[]] else []) @ ?A @ [[]] @ (if ?B = [] then [[]] else ?B))"
      using shape len by (simp only:)
    also have "\<dots> = ?A @ replicate l ''0'' @ ?B" by (rule restore_shape [OF A B])
    also have "\<dots> = H" by (rule zero_run_split [OF z, symmetric])
    finally show ?thesis .
  qed
qed

lemma compress_nonempty: "H \<noteq> [] \<Longrightarrow> compress_hextets H \<noteq> []"
  by (cases "compress_scan 0 H (- 1, 0, - 1, 0)") (auto simp: compress_hextets_def Let_def)

lemma compress_elems: "x \<in> set (compress_hextets H) \<Longrightarrow> x = [] \<or> x \<in> set H"
  by (cases "compress_scan 0 H (- 1, 0, - 1, 0)")
     (auto simp: compress_hextets_def Let_def dest: in_set_takeD in_set_dropD split: if_splits)

lemma hextets_length: "length (map hex_nat (hextets_of a)) = 8"
  by (simp add: hextets_of_def)

lemma hextets_nonempty: "\<forall>x \<in> set (map hex_nat (hextets_of a)). x \<noteq> []"
  using hex_nat_nonempty by auto

lemma split_ip6:
  "split_on CHR '':'' (string_from_ip6_int a) = compress_hextets (map hex_nat (hextets_of a))"
  unfolding string_from_ip6_int_def
proof (rule split_on_join)
  have "map hex_nat (hextets_of a) \<noteq> []"
    using hextets_length [of a] by (cases "map hex_nat (hextets_of a)") simp_all
  then show "compress_hextets (map hex_nat (hextets_of a)) \<noteq> []"
    by (rule compress_nonempty)
  show "\<forall>x \<in> set (compress_hextets (map hex_nat (hextets_of a))). CHR '':'' \<notin> set x"
  proof
    fix x assume "x \<in> set (compress_hextets (map hex_nat (hextets_of a)))"
    from compress_elems [OF this] show "CHR '':'' \<notin> set x"
      using hex_nat_no_colon by auto
  qed
qed

lemma string_from_ip6_int_inj:
  assumes "string_from_ip6_int a = string_from_ip6_int b"
    and "0 \<le> a" "a \<le> mask 128" "0 \<le> b" "b \<le> mask 128"
  shows "a = b"
proof -
  let ?A = "map hex_nat (hextets_of a)" and ?B = "map hex_nat (hextets_of b)"
  have "compress_hextets ?A = split_on CHR '':'' (string_from_ip6_int a)"
    by (simp only: split_ip6)
  also have "\<dots> = split_on CHR '':'' (string_from_ip6_int b)" by (simp only: assms(1))
  also have "\<dots> = compress_hextets ?B" by (simp only: split_ip6)
  finally have c: "compress_hextets ?A = compress_hextets ?B" .
  have "?A = restore_hextets (length ?A) (compress_hextets ?A)"
    by (rule compress_restore [OF hextets_nonempty, symmetric])
  also have "\<dots> = restore_hextets (length ?B) (compress_hextets ?B)"
    by (simp only: c hextets_length)
  also have "\<dots> = ?B" by (rule compress_restore [OF hextets_nonempty])
  finally have "hextets_of a = hextets_of b"
    by (simp only: inj_map_eq_map [OF inj_hex_nat])
  from hextets_of_inj [OF this assms(2-5)] show ?thesis .
qed

lemma single_network:
  assumes ok: "net_ok n" and p: "prefixlen n = max_prefixlen (version n)"
  shows "address_int (given_address n) = network_address n \<and>
         broadcast_address n = network_address n"
proof -
  let ?m = "max_prefixlen (version n)" and ?g = "address_int (given_address n)"
  from ok have g0: "0 \<le> ?g" and g1: "?g \<le> mask ?m"
    and na: "network_address n = and ?g (ip_int_from_prefix (version n) (prefixlen n))"
    by (simp_all add: net_ok_def)
  have "ip_int_from_prefix (version n) (prefixlen n) = mask ?m"
    by (simp add: ip_int_from_prefix_mask p)
  then have "network_address n = take_bit ?m ?g"
    using na by (simp add: take_bit_eq_mask)
  moreover from g1 have "?g < 2 ^ ?m" by (simp add: mask_eq_exp_minus_1)
  with g0 have "take_bit ?m ?g = ?g" by (rule take_bit_int_eq_self)
  ultimately have 1: "?g = network_address n" by simp
  from broadcast_eq [OF ok] p have 2: "broadcast_address n = network_address n" by simp
  from 1 2 show ?thesis by simp
qed

lemma hosts_shape:
  assumes ok: "net_ok n"
  shows "(prefixlen n = max_prefixlen (version n) \<and> hosts n = [given_address n]) \<or>
         (\<exists>lo hi. hosts n = map (address_class (version n)) [lo .. hi] \<and>
            network_address n \<le> lo \<and> hi \<le> broadcast_address n \<and>
            (prefixlen n + 2 \<le> max_prefixlen (version n) \<longrightarrow>
               network_address n < lo \<and> (version n = V4 \<longrightarrow> hi < broadcast_address n)))"
proof (cases "prefixlen n = max_prefixlen (version n) - 1")
  case True
  then have "hosts n = map (address_class (version n)) [network_address n .. broadcast_address n]"
    by (simp add: hosts_def)
  moreover from True have "\<not> prefixlen n + 2 \<le> max_prefixlen (version n)"
    by (cases "version n") (simp_all add: max_prefixlen_def)
  ultimately show ?thesis by blast
next
  case n1: False
  show ?thesis
  proof (cases "prefixlen n = max_prefixlen (version n)")
    case True
    with n1 show ?thesis by (simp add: hosts_def)
  next
    case False
    show ?thesis
    proof (cases "version n")
      case V4
      with n1 False have "hosts n =
          map (address_class (version n)) [network_address n + 1 .. broadcast_address n - 1]"
        by (simp add: hosts_def)
      then have "hosts n = map (address_class (version n))
            [network_address n + 1 .. broadcast_address n - 1] \<and>
          network_address n \<le> network_address n + 1 \<and>
          broadcast_address n - 1 \<le> broadcast_address n \<and>
          (prefixlen n + 2 \<le> max_prefixlen (version n) \<longrightarrow>
             network_address n < network_address n + 1 \<and>
             (version n = V4 \<longrightarrow> broadcast_address n - 1 < broadcast_address n))"
        by simp
      then show ?thesis by blast
    next
      case V6
      with n1 False have "hosts n =
          map (address_class (version n)) [network_address n + 1 .. broadcast_address n]"
        by (simp add: hosts_def)
      moreover have "version n \<noteq> V4" using V6 by simp
      ultimately have "hosts n = map (address_class (version n))
            [network_address n + 1 .. broadcast_address n] \<and>
          network_address n \<le> network_address n + 1 \<and>
          broadcast_address n \<le> broadcast_address n \<and>
          (prefixlen n + 2 \<le> max_prefixlen (version n) \<longrightarrow>
             network_address n < network_address n + 1 \<and>
             (version n = V4 \<longrightarrow> broadcast_address n < broadcast_address n))"
        by simp
      then show ?thesis by blast
    qed
  qed
qed

lemma address_class_props:
  "address_int (address_class v x) = x \<and> address_version (address_class v x) = v"
  by (cases v) (simp_all add: address_class_def)

lemma hosts_props:
  assumes ok: "net_ok n" and a: "a \<in> set (hosts n)"
  shows "address_version a = version n \<and>
         network_address n \<le> address_int a \<and> address_int a \<le> broadcast_address n \<and>
         (prefixlen n + 2 \<le> max_prefixlen (version n) \<longrightarrow>
            address_int a \<noteq> network_address n \<and>
            (version n = V4 \<longrightarrow> address_int a \<noteq> broadcast_address n))"
proof -
  from hosts_shape [OF ok] show ?thesis
  proof
    assume s: "prefixlen n = max_prefixlen (version n) \<and> hosts n = [given_address n]"
    with a have e: "a = given_address n" by simp
    from s single_network [OF ok] have "address_int (given_address n) = network_address n"
      "broadcast_address n = network_address n" by simp_all
    moreover from ok have "address_version (given_address n) = version n"
      by (simp add: net_ok_def)
    moreover from s have "\<not> prefixlen n + 2 \<le> max_prefixlen (version n)" by simp
    ultimately show ?thesis using e by simp
  next
    assume "\<exists>lo hi. hosts n = map (address_class (version n)) [lo .. hi] \<and>
            network_address n \<le> lo \<and> hi \<le> broadcast_address n \<and>
            (prefixlen n + 2 \<le> max_prefixlen (version n) \<longrightarrow>
               network_address n < lo \<and> (version n = V4 \<longrightarrow> hi < broadcast_address n))"
    then obtain lo hi where h: "hosts n = map (address_class (version n)) [lo .. hi]"
      and b: "network_address n \<le> lo" "hi \<le> broadcast_address n"
      and c: "prefixlen n + 2 \<le> max_prefixlen (version n) \<longrightarrow>
               network_address n < lo \<and> (version n = V4 \<longrightarrow> hi < broadcast_address n)"
      by blast
    from a h obtain x where x: "lo \<le> x" "x \<le> hi" and e: "a = address_class (version n) x"
      by auto
    from e address_class_props [of "version n" x] have
      "address_int a = x" "address_version a = version n" by simp_all
    with x b c show ?thesis by auto
  qed
qed

lemma str_address_class_inj:
  assumes "str_address (address_class v x) = str_address (address_class v y)"
    and "0 \<le> x" "x \<le> mask (max_prefixlen v)" "0 \<le> y" "y \<le> mask (max_prefixlen v)"
  shows "x = y"
proof (cases v)
  case V4
  with assms have "string_from_ip4_int x = string_from_ip4_int y"
    "x \<le> mask 32" "y \<le> mask 32"
    by (simp_all add: address_class_def max_prefixlen_def)
  from string_from_ip4_int_inj [OF this(1) assms(2) this(2) assms(4) this(3)] show ?thesis .
next
  case V6
  with assms have "string_from_ip6_int x = string_from_ip6_int y"
    "x \<le> mask 128" "y \<le> mask 128"
    by (simp_all add: address_class_def max_prefixlen_def)
  from string_from_ip6_int_inj [OF this(1) assms(2) this(2) assms(4) this(3)] show ?thesis .
qed

lemma hosts_str_distinct:
  assumes ok: "net_ok n"
  shows "distinct (map str_address (hosts n))"
proof -
  from hosts_shape [OF ok] show ?thesis
  proof
    assume "prefixlen n = max_prefixlen (version n) \<and> hosts n = [given_address n]"
    then show ?thesis by simp
  next
    assume "\<exists>lo hi. hosts n = map (address_class (version n)) [lo .. hi] \<and>
            network_address n \<le> lo \<and> hi \<le> broadcast_address n \<and>
            (prefixlen n + 2 \<le> max_prefixlen (version n) \<longrightarrow>
               network_address n < lo \<and> (version n = V4 \<longrightarrow> hi < broadcast_address n))"
    then obtain lo hi where h: "hosts n = map (address_class (version n)) [lo .. hi]"
      and b: "network_address n \<le> lo" "hi \<le> broadcast_address n"
      by blast
    from network_bounds [OF ok] have nb: "0 \<le> network_address n"
      "broadcast_address n \<le> mask (max_prefixlen (version n))" by simp_all
    have inj: "inj_on (\<lambda>x. str_address (address_class (version n) x)) (set [lo .. hi])"
    proof (rule inj_onI)
      fix x y assume x: "x \<in> set [lo .. hi]" and y: "y \<in> set [lo .. hi]"
        and e: "str_address (address_class (version n) x) = str_address (address_class (version n) y)"
      from x y b nb have "0 \<le> x" "x \<le> mask (max_prefixlen (version n))"
        "0 \<le> y" "y \<le> mask (max_prefixlen (version n))" by auto
      from str_address_class_inj [OF e this] show "x = y" .
    qed
    have "distinct (map (\<lambda>x. str_address (address_class (version n) x)) [lo .. hi])"
      using inj by (simp add: distinct_map)
    then show ?thesis by (simp add: h o_def)
  qed
qed

lemma expand_cidr_shape:
  "ip_network cidr False = Inr n \<Longrightarrow>
     expand_cidr cidr mh =
       Inr (map str_address (case mh of None \<Rightarrow> hosts n | Some k \<Rightarrow> take (nat k) (hosts n)))"
  by (cases mh) (simp_all add: expand_cidr_def expand_loop_eq)

lemma capped_distinct:
  assumes "net_ok n"
  shows "distinct (map str_address (case mh of None \<Rightarrow> hosts n | Some k \<Rightarrow> take (nat k) (hosts n)))"
proof (cases mh)
  case None
  with hosts_str_distinct [OF assms] show ?thesis by simp
next
  case (Some k)
  have "distinct (take (nat k) (map str_address (hosts n)))"
    using hosts_str_distinct [OF assms] by (rule distinct_take)
  with Some show ?thesis by (simp add: take_map)
qed


text \<open>
  C7 (as the code has it). For every parsable range and every cap \<open>k\<close>, \<open>expand_cidr\<close>
  returns at most \<open>k\<close> addresses (none when \<open>k\<close> is negative), pairwise distinct, each
  of them in the block of the network, between its network address and its last address.
  When the prefix leaves at least two host bits (IPv4 up to /30, IPv6 up to /126) the
  network address is left out, and for IPv4 the broadcast address too. Nothing is left out
  of a network of one or two addresses, nor is the last address of an IPv6 network.
\<close>

theorem expand_cidr_capped_distinct_in_block:
  assumes "ip_network cidr False = Inr n"
  shows "\<exists>as. expand_cidr cidr mh = Inr (map str_address as) \<and>
           distinct (map str_address as) \<and>
           (\<forall>k. mh = Some k \<longrightarrow> int (length as) \<le> max 0 k) \<and>
           (\<forall>a \<in> set as.
              address_version a = version n \<and>
              network_address n \<le> address_int a \<and> address_int a \<le> broadcast_address n \<and>
              (prefixlen n + 2 \<le> max_prefixlen (version n) \<longrightarrow>
                 address_int a \<noteq> network_address n \<and>
                 (version n = V4 \<longrightarrow> address_int a \<noteq> broadcast_address n)))"
proof -
  let ?as = "case mh of None \<Rightarrow> hosts n | Some k \<Rightarrow> take (nat k) (hosts n)"
  have ok: "net_ok n" using assms by (rule ip_network_ok)
  have 1: "expand_cidr cidr mh = Inr (map str_address ?as)"
    using assms by (rule expand_cidr_shape)
  have 2: "distinct (map str_address ?as)" using ok by (rule capped_distinct)
  have 3: "\<forall>k. mh = Some k \<longrightarrow> int (length ?as) \<le> max 0 k" by auto
  have sub: "set ?as \<subseteq> set (hosts n)"
    by (cases mh) (auto dest: in_set_takeD)
  have 4: "\<forall>a \<in> set ?as.
              address_version a = version n \<and>
              network_address n \<le> address_int a \<and> address_int a \<le> broadcast_address n \<and>
              (prefixlen n + 2 \<le> max_prefixlen (version n) \<longrightarrow>
                 address_int a \<noteq> network_address n \<and>
                 (version n = V4 \<longrightarrow> address_int a \<noteq> broadcast_address n))"
  proof
    fix a assume "a \<in> set ?as"
    with sub have "a \<in> set (hosts n)" by blast
    from hosts_props [OF ok this] show "address_version a = version n \<and>
              network_address n \<le> address_int a \<and> address_int a \<le> broadcast_address n \<and>
              (prefixlen n + 2 \<le> max_prefixlen (version n) \<longrightarrow>
                 address_int a \<noteq> network_address n \<and>
                 (version n = V4 \<longrightarrow> address_int a \<noteq> broadcast_address n))" .
  qed
  from 1 2 3 4 show ?thesis by blast
qed

theorem expand_cidr_capped_distinct_in_block_witness:
  "ip_network ''192.168.0.0/30'' False =
     Inr \<lparr>version = V4, network_address = 3232235520, prefixlen = 30,
          given_address = IPv4Address 3232235520\<rparr> \<and>
   (\<exists>as. expand_cidr ''192.168.0.0/30'' (Some 1) = Inr (map str_address as) \<and>
      distinct (map str_address as) \<and> int (length as) \<le> 1 \<and>
      (\<forall>a \<in> set as. 3232235520 < address_int a \<and> address_int a < 3232235523)) \<and>
   expand_cidr ''192.168.0.0/30'' (Some 1) = Inr [''192.168.0.1'']"
proof -
  let ?n = "\<lparr>version = V4, network_address = 3232235520, prefixlen = 30,
          given_address = IPv4Address 3232235520\<rparr>"
  have n: "ip_network ''192.168.0.0/30'' False = Inr ?n" by code_simp
  have b: "broadcast_address ?n = 3232235523" by code_simp
  have e: "expand_cidr ''192.168.0.0/30'' (Some 1) = Inr [''192.168.0.1'']" by code_simp
  from expand_cidr_capped_distinct_in_block [OF n, of "Some 1"] obtain as where
    1: "expand_cidr ''192.168.0.0/30'' (Some 1) = Inr (map str_address as)"
    and 2: "distinct (map str_address as)"
    and 3: "\<forall>k. Some (1 :: int) = Some k \<longrightarrow> int (length as) \<le> max 0 k"
    and 4: "\<forall>a \<in> set as.
              address_version a = version ?n \<and>
              network_address ?n \<le> address_int a \<and> address_int a \<le> broadcast_address ?n \<and>
              (prefixlen ?n + 2 \<le> max_prefixlen (version ?n) \<longrightarrow>
                 address_int a \<noteq> network_address ?n \<and>
                 (version ?n = V4 \<longrightarrow> address_int a \<noteq> broadcast_address ?n))"
    by blast
  from 3 have c3: "int (length as) \<le> 1" by simp
  have c4: "\<forall>a \<in> set as. 3232235520 < address_int a \<and> address_int a < 3232235523"
  proof
    fix a assume "a \<in> set as"
    with 4 have "network_address ?n \<le> address_int a \<and> address_int a \<le> broadcast_address ?n \<and>
              (prefixlen ?n + 2 \<le> max_prefixlen (version ?n) \<longrightarrow>
                 address_int a \<noteq> network_address ?n \<and>
                 (version ?n = V4 \<longrightarrow> address_int a \<noteq> broadcast_address ?n))" by blast
    then show "3232235520 < address_int a \<and> address_int a < 3232235523"
      unfolding b by (simp add: max_prefixlen_def)
  qed
  from n 1 2 c3 c4 e show ?thesis by blast
qed

text \<open>
  C7 as stated fails on a two-address network: \<open>expand_cidr("10.0.0.0/31", 2)\<close> returns
  the network address 10.0.0.0 and the broadcast address 10.0.0.1 (\<open>hosts()\<close> yields both
  addresses of a /31); and with the cap \<open>-1\<close> the empty result is not "at most \<open>k\<close>".
\<close>

theorem expand_cidr_yields_network_and_broadcast:
  "expand_cidr ''10.0.0.0/31'' (Some 2) = Inr [''10.0.0.0'', ''10.0.0.1''] \<and>
   ip_network ''10.0.0.0/31'' False =
     Inr \<lparr>version = V4, network_address = 167772160, prefixlen = 31,
          given_address = IPv4Address 167772160\<rparr> \<and>
   broadcast_address \<lparr>version = V4, network_address = 167772160, prefixlen = 31,
          given_address = IPv4Address 167772160\<rparr> = 167772161 \<and>
   str_address (IPv4Address 167772160) = ''10.0.0.0'' \<and>
   str_address (IPv4Address 167772161) = ''10.0.0.1'' \<and>
   expand_cidr ''10.0.0.0/30'' (Some (- 1)) = Inr [] \<and>
   \<not> int (length ([] :: string list)) \<le> - 1"
proof -
  have 1: "expand_cidr ''10.0.0.0/31'' (Some 2) = Inr [''10.0.0.0'', ''10.0.0.1'']"
    by code_simp
  have 2: "ip_network ''10.0.0.0/31'' False =
     Inr \<lparr>version = V4, network_address = 167772160, prefixlen = 31,
          given_address = IPv4Address 167772160\<rparr>"
    by code_simp
  have 3: "broadcast_address \<lparr>version = V4, network_address = 167772160, prefixlen = 31,
          given_address = IPv4Address 167772160\<rparr> = 167772161"
    by code_simp
  have 4: "str_address (IPv4Address 167772160) = ''10.0.0.0''" by code_simp
  have 5: "str_address (IPv4Address 167772161) = ''10.0.0.1''" by code_simp
  have 6: "expand_cidr ''10.0.0.0/30'' (Some (- 1)) = Inr []" by code_simp
  have 7: "\<not> int (length ([] :: string list)) \<le> - 1" by simp
  from 1 2 3 4 5 6 7 show ?thesis by blast
qed

subsection \<open>Scan orchestrator\<close>

lemma filter_update_mset:
  "i < length ts \<Longrightarrow>
     mset (filter P (ts[i := y])) + (if P (ts ! i) then {#ts ! i#} else {#}) =
     mset (filter P ts) + (if P y then {#y#} else {#})"
proof (induction ts arbitrary: i)
  case Nil
  then show ?case by simp
next
  case (Cons t ts)
  show ?case
  proof (cases i)
    case 0
    then show ?thesis by simp
  next
    case (Suc j)
    with Cons.prems have "j < length ts" by simp
    from Cons.IH [OF this] Suc show ?thesis
      by (cases "P t"; cases "P (ts ! j)"; cases "P y") (simp_all del: mset_filter)
  qed
qed

lemma in_phase_update:
  "i < length ts \<Longrightarrow>
     in_phase ph (ts[i := y]) + (if t_phase (ts ! i) = ph then 1 else 0) =
     in_phase ph ts + (if t_phase y = ph then 1 else 0)"
proof (induction ts arbitrary: i)
  case Nil
  then show ?case by simp
next
  case (Cons t ts)
  show ?case
  proof (cases i)
    case 0
    then show ?thesis by (simp add: in_phase_def)
  next
    case (Suc j)
    with Cons.prems have "j < length ts" by simp
    from Cons.IH [OF this] Suc show ?thesis by (simp add: in_phase_def)
  qed
qed

lemma targets_update:
  "i < length ts \<Longrightarrow> map task_target (ts[i := (ts ! i)\<lparr>t_phase := ph\<rparr>]) = map task_target ts"
  by (simp add: map_update task_target_def list_update_same_conv)


lemma target_scan_host_port: "target (scan_host_port h p cfg env) = (h, p)"
  by (simp add: target_def scan_host_port_def Let_def)

lemma step_Acquire:
  "step cfg (Acquire i) s = Some s' \<Longrightarrow>
     i < length (tasks s) \<and> t_phase (tasks s ! i) = Waiting \<and> 0 < sem_value s \<and>
     sem_value s' = sem_value s - 1 \<and> results s' = results s \<and>
     tasks s' = (tasks s)[i := (tasks s ! i)\<lparr>t_phase := Running\<rparr>]"
  by (auto simp: step_def split: if_splits)

lemma step_Complete:
  "step cfg (Complete i env) s = Some s' \<Longrightarrow>
     i < length (tasks s) \<and> t_phase (tasks s ! i) = Running \<and>
     sem_value s' = sem_value s + 1 \<and>
     results s' = results s @
        [scan_host_port (t_host (tasks s ! i)) (t_port (tasks s ! i)) cfg env] \<and>
     tasks s' = (tasks s)[i := (tasks s ! i)\<lparr>t_phase := Finished\<rparr>]"
  by (auto simp: step_def split: if_splits)

lemma step_inv:
  assumes "scan_inv cfg tgts s" and "step cfg ev s = Some s'"
  shows "scan_inv cfg tgts s'"
proof (cases ev)
  case (Acquire i)
  with assms(2) have st: "i < length (tasks s)" "t_phase (tasks s ! i) = Waiting"
    "0 < sem_value s" "sem_value s' = sem_value s - 1" "results s' = results s"
    "tasks s' = (tasks s)[i := (tasks s ! i)\<lparr>t_phase := Running\<rparr>]"
    using step_Acquire by blast+
  have r: "in_phase Running (tasks s') = Suc (in_phase Running (tasks s))"
    using in_phase_update [OF st(1), of Running "(tasks s ! i)\<lparr>t_phase := Running\<rparr>"] st(2,6)
    by simp
  have f: "mset (filter (\<lambda>t. t_phase t = Finished) (tasks s')) =
           mset (filter (\<lambda>t. t_phase t = Finished) (tasks s))"
    using filter_update_mset [OF st(1), of "\<lambda>t. t_phase t = Finished"
        "(tasks s ! i)\<lparr>t_phase := Running\<rparr>"] st(2,6)
    by (simp del: mset_filter)
  have f': "mset (map task_target (filter (\<lambda>t. t_phase t = Finished) (tasks s'))) =
           mset (map task_target (filter (\<lambda>t. t_phase t = Finished) (tasks s)))"
    using f by (metis mset_map)
  from assms(1) st r f' show ?thesis
    by (simp add: scan_inv_def targets_update)
next
  case (Complete i env)
  with assms(2) have st: "i < length (tasks s)" "t_phase (tasks s ! i) = Running"
    "sem_value s' = sem_value s + 1"
    "results s' = results s @
        [scan_host_port (t_host (tasks s ! i)) (t_port (tasks s ! i)) cfg env]"
    "tasks s' = (tasks s)[i := (tasks s ! i)\<lparr>t_phase := Finished\<rparr>]"
    using step_Complete by blast+
  have r: "Suc (in_phase Running (tasks s')) = in_phase Running (tasks s)"
    using in_phase_update [OF st(1), of Running "(tasks s ! i)\<lparr>t_phase := Finished\<rparr>"] st(2,5)
    by simp
  have f: "mset (filter (\<lambda>t. t_phase t = Finished) (tasks s')) =
           add_mset ((tasks s ! i)\<lparr>t_phase := Finished\<rparr>)
             (mset (filter (\<lambda>t. t_phase t = Finished) (tasks s)))"
    using filter_update_mset [OF st(1), of "\<lambda>t. t_phase t = Finished"
        "(tasks s ! i)\<lparr>t_phase := Finished\<rparr>"] st(2,5)
    by (simp del: mset_filter)
  have f': "mset (map task_target (filter (\<lambda>t. t_phase t = Finished) (tasks s'))) =
           add_mset (t_host (tasks s ! i), t_port (tasks s ! i))
             (mset (map task_target (filter (\<lambda>t. t_phase t = Finished) (tasks s))))"
  proof -
    have "mset (map task_target (filter (\<lambda>t. t_phase t = Finished) (tasks s'))) =
          image_mset task_target (mset (filter (\<lambda>t. t_phase t = Finished) (tasks s')))"
      by simp
    also have "\<dots> = image_mset task_target (add_mset ((tasks s ! i)\<lparr>t_phase := Finished\<rparr>)
             (mset (filter (\<lambda>t. t_phase t = Finished) (tasks s))))"
      by (simp only: f)
    finally show ?thesis by (simp add: task_target_def)
  qed
  from assms(1) have inv: "0 \<le> sem_value s"
    "sem_value s + int (in_phase Running (tasks s)) = concurrency cfg"
    "map task_target (tasks s) = tgts"
    "mset (map target (results s)) =
       mset (map task_target (filter (\<lambda>t. t_phase t = Finished) (tasks s)))"
    by (simp_all add: scan_inv_def)
  have 1: "0 \<le> sem_value s'" using inv(1) st(3) by simp
  have 2: "sem_value s' + int (in_phase Running (tasks s')) = concurrency cfg"
    using inv(2) st(3) r by linarith
  have 3: "map task_target (tasks s') = tgts"
    using inv(3) st(1,5) by (simp add: targets_update)
  have 4: "mset (map target (results s')) =
       mset (map task_target (filter (\<lambda>t. t_phase t = Finished) (tasks s')))"
    using inv(4) st(4) f' by (simp add: target_scan_host_port)
  from 1 2 3 4 show ?thesis by (simp add: scan_inv_def)
qed

lemma run_inv:
  "scan_inv cfg tgts s \<Longrightarrow> run cfg sched s = Some s' \<Longrightarrow> scan_inv cfg tgts s'"
proof (induction sched arbitrary: s)
  case Nil
  then show ?case by simp
next
  case (Cons ev evs)
  from Cons.prems(2) obtain s1 where s1: "step cfg ev s = Some s1" and r: "run cfg evs s1 = Some s'"
    by (auto split: option.splits)
  from step_inv [OF Cons.prems(1) s1] Cons.IH r show ?case by blast
qed

lemma create_tasks_targets: "map task_target (create_tasks hs ports) = List.product hs ports"
  by (induction hs) (simp_all add: create_tasks_def task_target_def o_def)

lemma create_tasks_waiting: "t \<in> set (create_tasks hs ports) \<Longrightarrow> t_phase t = Waiting"
  by (auto simp: create_tasks_def)

lemma filter_none: "(\<And>t. t \<in> set ts \<Longrightarrow> \<not> P t) \<Longrightarrow> filter P ts = []"
  by (induction ts) auto

lemma start_scan_inv:
  assumes "start_scan cidr ports cfg = Inr s0"
    and "expand_cidr cidr (Some (max_hosts cfg)) = Inr hs"
  shows "scan_inv cfg (List.product hs ports) s0 \<and> results s0 = [] \<and>
         in_phase Running (tasks s0) = 0 \<and> in_phase Finished (tasks s0) = 0"
proof -
  from assms have s0: "s0 = \<lparr>sem_value = concurrency cfg, tasks = create_tasks hs ports, results = []\<rparr>"
    and c: "0 \<le> concurrency cfg"
    by (auto simp: start_scan_def split: if_splits)
  have r: "filter (\<lambda>t. t_phase t = Running) (create_tasks hs ports) = []"
    by (rule filter_none) (auto dest: create_tasks_waiting)
  have f: "filter (\<lambda>t. t_phase t = Finished) (create_tasks hs ports) = []"
    by (rule filter_none) (auto dest: create_tasks_waiting)
  from s0 c r f show ?thesis
    by (simp add: scan_inv_def in_phase_def create_tasks_targets)
qed








lemma scan_after_inv:
  assumes "scan_after cidr ports cfg sched = Inr (Some s)"
  shows "\<exists>hs s0. expand_cidr cidr (Some (max_hosts cfg)) = Inr hs \<and>
           start_scan cidr ports cfg = Inr s0 \<and> run cfg sched s0 = Some s \<and>
           in_phase Running (tasks s0) = 0 \<and> in_phase Finished (tasks s0) = 0 \<and>
           length (tasks s0) = length hs * length ports \<and>
           scan_inv cfg (List.product hs ports) s"
proof -
  from assms obtain s0 where s0: "start_scan cidr ports cfg = Inr s0"
    and r: "run cfg sched s0 = Some s"
    by (auto simp: scan_after_def split: sum.splits)
  from s0 obtain hs where hs: "expand_cidr cidr (Some (max_hosts cfg)) = Inr hs"
    by (auto simp: start_scan_def split: sum.splits)
  from start_scan_inv [OF s0 hs] have i0: "scan_inv cfg (List.product hs ports) s0"
    and z: "in_phase Running (tasks s0) = 0" "in_phase Finished (tasks s0) = 0"
    by simp_all
  from i0 have "length (tasks s0) = length (List.product hs ports)"
    by (metis length_map scan_inv_def)
  then have l: "length (tasks s0) = length hs * length ports" by simp
  from run_inv [OF i0 r] hs s0 r z l show ?thesis by blast
qed

text \<open>
  C2. In every state that any interleaving of one \<open>run_scan\<close> invocation reaches, the number
  of tasks past the semaphore and not yet finished is at most \<open>cfg.concurrency\<close>.
\<close>

theorem active_tasks_bounded:
  "scan_after cidr ports cfg sched = Inr (Some s) \<Longrightarrow> int (active s) \<le> concurrency cfg"
proof -
  assume "scan_after cidr ports cfg sched = Inr (Some s)"
  from scan_after_inv [OF this] obtain hs where "scan_inv cfg (List.product hs ports) s"
    by blast
  then have "0 \<le> sem_value s" "sem_value s + int (in_phase Running (tasks s)) = concurrency cfg"
    by (simp_all add: scan_inv_def)
  then show ?thesis by (simp add: active_def in_phase_def)
qed

theorem active_tasks_bounded_witness:
  "scan_after ''10.0.0.0/30'' [22, 80]
      \<lparr>timeout = 2, max_hosts = 512, concurrency = 2, banner_max_bytes = 2048\<rparr>
      [Acquire 0, Acquire 3] =
     Inr (Some \<lparr>sem_value = 0,
        tasks = [\<lparr>t_host = ''10.0.0.1'', t_port = 22, t_phase = Running\<rparr>,
                 \<lparr>t_host = ''10.0.0.1'', t_port = 80, t_phase = Waiting\<rparr>,
                 \<lparr>t_host = ''10.0.0.2'', t_port = 22, t_phase = Waiting\<rparr>,
                 \<lparr>t_host = ''10.0.0.2'', t_port = 80, t_phase = Running\<rparr>],
        results = []\<rparr>) \<and>
   int (active \<lparr>sem_value = 0,
        tasks = [\<lparr>t_host = ''10.0.0.1'', t_port = 22, t_phase = Running\<rparr>,
                 \<lparr>t_host = ''10.0.0.1'', t_port = 80, t_phase = Waiting\<rparr>,
                 \<lparr>t_host = ''10.0.0.2'', t_port = 22, t_phase = Waiting\<rparr>,
                 \<lparr>t_host = ''10.0.0.2'', t_port = 80, t_phase = Running\<rparr>],
        results = []\<rparr>) \<le> 2 \<and>
   scan_after ''10.0.0.0/30'' [22, 80]
      \<lparr>timeout = 2, max_hosts = 512, concurrency = 2, banner_max_bytes = 2048\<rparr>
      [Acquire 0, Acquire 3, Acquire 1] = Inr None"
proof -
  have h: "expand_cidr ''10.0.0.0/30'' (Some 512) = Inr [''10.0.0.1'', ''10.0.0.2'']"
    by code_simp
  have e: "scan_after ''10.0.0.0/30'' [22, 80]
      \<lparr>timeout = 2, max_hosts = 512, concurrency = 2, banner_max_bytes = 2048\<rparr>
      [Acquire 0, Acquire 3] =
     Inr (Some \<lparr>sem_value = 0,
        tasks = [\<lparr>t_host = ''10.0.0.1'', t_port = 22, t_phase = Running\<rparr>,
                 \<lparr>t_host = ''10.0.0.1'', t_port = 80, t_phase = Waiting\<rparr>,
                 \<lparr>t_host = ''10.0.0.2'', t_port = 22, t_phase = Waiting\<rparr>,
                 \<lparr>t_host = ''10.0.0.2'', t_port = 80, t_phase = Running\<rparr>],
        results = []\<rparr>)"
    by (simp add: scan_after_def start_scan_def h create_tasks_def step_def)
  have n: "scan_after ''10.0.0.0/30'' [22, 80]
      \<lparr>timeout = 2, max_hosts = 512, concurrency = 2, banner_max_bytes = 2048\<rparr>
      [Acquire 0, Acquire 3, Acquire 1] = Inr None"
    by (simp add: scan_after_def start_scan_def h create_tasks_def step_def)
  from active_tasks_bounded [OF e] e n show ?thesis by simp
qed





end
